theory Spec2Isabelle
  imports Complex_Main "HOL-Library.Multiset"
begin

section \<open>Constants\<close>

definition BATCH_SIZE :: nat where
  "BATCH_SIZE = 5"

definition BATCH_DELAY_MS :: nat where
  "BATCH_DELAY_MS = 1500"

text \<open>Column indices of the sheet: \<open>COL.CODE\<close> and \<open>COL.NAME\<close>.\<close>

definition COL_CODE :: nat where
  "COL_CODE = 1"

definition COL_NAME :: nat where
  "COL_NAME = 2"

section \<open>Strings\<close>

text \<open>
  A JavaScript string is a sequence of UTF-16 code units; \<open>length\<close>, \<open>substring\<close> and
  the regular expression of \<open>toTicker\<close> all work on code units. \<open>ascii\<close> embeds a
  literal of ASCII characters.
\<close>

type_synonym jsstring = "nat list"

definition ascii :: "string \<Rightarrow> jsstring" where
  "ascii s = map of_char s"

text \<open>
  \<open>String(n)\<close> for an integer \<open>n\<close> of magnitude below \<open>10 ^ 21\<close>: decimal digits, a
  minus sign when negative. It prints the fields of a date and the status of a response.
\<close>

fun digits :: "nat \<Rightarrow> jsstring" where
  "digits n = (if n < 10 then [48 + n] else digits (n div 10) @ [48 + n mod 10])"

declare digits.simps [simp del]

definition String_int :: "int \<Rightarrow> jsstring" where
  "String_int n = (if n < 0 then 45 # digits (nat (- n)) else digits (nat n))"

text \<open>\<open>s.padStart(n, c)\<close> for a one-character pad string.\<close>

definition padStart :: "nat \<Rightarrow> nat \<Rightarrow> jsstring \<Rightarrow> jsstring" where
  "padStart n c s = replicate (n - length s) c @ s"

text \<open>
  \<open>s.trim()\<close> removes white space and line terminators from both ends: TAB, LF, VT, FF,
  CR, SP, NBSP, U+1680, U+2000 to U+200A, U+2028, U+2029, U+202F, U+205F, U+3000, U+FEFF.
\<close>

definition is_js_space :: "nat \<Rightarrow> bool" where
  "is_js_space c =
     (c = 9 \<or> c = 10 \<or> c = 11 \<or> c = 12 \<or> c = 13 \<or> c = 32 \<or> c = 160 \<or> c = 5760
      \<or> (8192 \<le> c \<and> c \<le> 8202) \<or> c = 8232 \<or> c = 8233 \<or> c = 8239 \<or> c = 8287
      \<or> c = 12288 \<or> c = 65279)"

definition trim :: "jsstring \<Rightarrow> jsstring" where
  "trim s = rev (dropWhile is_js_space (rev (dropWhile is_js_space s)))"

text \<open>A string or \<open>null\<close> used as a condition: \<open>null\<close> and the empty string are falsy.\<close>

definition truthy :: "jsstring option \<Rightarrow> bool" where
  "truthy s = (case s of None \<Rightarrow> False | Some v \<Rightarrow> v \<noteq> [])"

section \<open>Dates\<close>

text \<open>
  A \<open>Date\<close> is its time value, the milliseconds since the epoch. The local-time getters
  depend on the time zone of the host: \<open>off t\<close> is what \<open>getTimezoneOffset()\<close> returns
  for a date with time value \<open>t\<close> (minutes to add to local time to reach UTC), so that
  the local time of \<open>t\<close> is \<open>t - off t * 60000\<close>.
\<close>

type_synonym tz = "int \<Rightarrow> int"

definition LocalTime :: "tz \<Rightarrow> int \<Rightarrow> int" where
  "LocalTime off t = t - off t * 60000"

definition Day :: "int \<Rightarrow> int" where
  "Day t = t div 86400000"

text \<open>Year, month (1 to 12) and day of the month of a day number (days since 1970-01-01).\<close>

definition civil_from_days :: "int \<Rightarrow> int \<times> int \<times> int" where
  "civil_from_days z0 =
     (let z = z0 + 719468;
          era = z div 146097;
          doe = z - era * 146097;
          yoe = (doe - doe div 1460 + doe div 36524 - doe div 146096) div 365;
          doy = doe - (365 * yoe + yoe div 4 - yoe div 100);
          mp = (5 * doy + 2) div 153;
          d = doy - (153 * mp + 2) div 5 + 1;
          m = (if mp < 10 then mp + 3 else mp - 9);
          y = yoe + era * 400 + (if m \<le> 2 then 1 else 0)
      in (y, m, d))"

definition getFullYear :: "tz \<Rightarrow> int \<Rightarrow> int" where
  "getFullYear off t = fst (civil_from_days (Day (LocalTime off t)))"

definition getMonth :: "tz \<Rightarrow> int \<Rightarrow> int" where
  "getMonth off t = fst (snd (civil_from_days (Day (LocalTime off t)))) - 1"

definition getDate :: "tz \<Rightarrow> int \<Rightarrow> int" where
  "getDate off t = snd (snd (civil_from_days (Day (LocalTime off t))))"

definition getHours :: "tz \<Rightarrow> int \<Rightarrow> int" where
  "getHours off t = (LocalTime off t mod 86400000) div 3600000"

definition getMinutes :: "tz \<Rightarrow> int \<Rightarrow> int" where
  "getMinutes off t = (LocalTime off t mod 3600000) div 60000"

section \<open>getTargetDate\<close>

text \<open>
  \<open>now\<close> is the time value of \<open>new Date()\<close>. The result is the string
  \<open>YYYYMMDD\<close> built from the local-time getters of \<open>targetDate\<close>.
\<close>

definition getTargetDate :: "tz \<Rightarrow> int \<Rightarrow> jsstring" where
  "getTargetDate off now =
     (let jstOffset = 9 * 60;
          utcMs = now + off now * 60 * 1000;
          jstDate = utcMs + jstOffset * 60 * 1000;
          hour = getHours off jstDate;
          minute = getMinutes off jstDate;
          currentMinutes = hour * 60 + minute;
          targetDate = (if 540 \<le> currentMinutes \<and> currentMinutes < 900
                        then jstDate - 24 * 60 * 60 * 1000 else jstDate);
          y = getFullYear off targetDate;
          m = padStart 2 48 (String_int (getMonth off targetDate + 1));
          d = padStart 2 48 (String_int (getDate off targetDate))
      in String_int y @ m @ d)"

text \<open>
  The rule of the specification, written from its words: the instant in UTC+9, yesterday's
  date of that local time when the time of day is in the window from 09:00 (included) to
  15:00 (excluded), today's date otherwise.
\<close>

definition yyyymmdd :: "int \<Rightarrow> jsstring" where
  "yyyymmdd day =
     (case civil_from_days day of
        (y, m, d) \<Rightarrow> String_int y @ padStart 2 48 (String_int m) @ padStart 2 48 (String_int d))"

definition reference_date_spec :: "int \<Rightarrow> jsstring" where
  "reference_date_spec now =
     (let jst = now + 9 * 3600000;
          timeOfDay = jst mod 86400000
      in if 9 * 3600000 \<le> timeOfDay \<and> timeOfDay < 15 * 3600000
         then yyyymmdd (Day jst - 1) else yyyymmdd (Day jst))"

text \<open>
  A host zone with a daylight-saving switch, as a concrete example: New York in 2024,
  UTC-5 until 2024-03-10 07:00 UTC, UTC-4 until 2024-11-03 06:00 UTC, UTC-5 after.
\<close>

definition new_york_2024 :: tz where
  "new_york_2024 t = (if 1710054000000 \<le> t \<and> t < 1730613600000 then 240 else 300)"

section \<open>Numbers\<close>

text \<open>
  Timestamps (whole seconds since the epoch) are integers, \<open>null\<close> and \<open>undefined\<close> are
  \<open>None\<close>. A price is the real number the provider sends. \<open>Math.round\<close> rounds to the
  nearest integer, a tie going towards plus infinity.
\<close>

definition Math_round :: "real \<Rightarrow> int" where
  "Math_round x = \<lfloor>x + 1 / 2\<rfloor>"

text \<open>
  The rounding the specification names (half away from zero), written from its words,
  for comparison with \<open>Math_round\<close>.
\<close>

definition round_half_away_spec :: "real \<Rightarrow> int" where
  "round_half_away_spec x = (if x < 0 then - \<lfloor>- x + 1 / 2\<rfloor> else \<lfloor>x + 1 / 2\<rfloor>)"

subsection \<open>Double-precision arithmetic\<close>

text \<open>
  The arithmetic of \<open>calcChangeRate\<close> is that of IEEE 754 binary64, the numbers of
  JavaScript: a finite double, \<open>Infinity\<close>, \<open>-Infinity\<close> or \<open>NaN\<close>. \<open>0\<close> and \<open>-0\<close>,
  which \<open>===\<close> does not tell apart, are both \<open>Finite 0\<close>.
\<close>

datatype number = Finite real | PlusInfinity | MinusInfinity | NaN

definition infinity :: "bool \<Rightarrow> number" where
  "infinity positive = (if positive then PlusInfinity else MinusInfinity)"

text \<open>The number of binary digits of a natural number.\<close>

fun bit_length :: "nat \<Rightarrow> nat" where
  "bit_length n = (if n = 0 then 0 else Suc (bit_length (n div 2)))"

declare bit_length.simps [simp del]

definition pow2 :: "int \<Rightarrow> real" where
  "pow2 k = (if 0 \<le> k then 2 ^ nat k else 1 / 2 ^ nat (- k))"

text \<open>
  The binary exponent of a positive real \<open>x\<close>: the \<open>e\<close> with
  \<open>2 ^ e \<le> x < 2 ^ (e + 1)\<close> (lemma \<open>exponent_bounds\<close>).
\<close>

definition exponent :: "real \<Rightarrow> int" where
  "exponent x = (if 1 \<le> x then int (bit_length (nat \<lfloor>x\<rfloor>)) - 1
                 else - int (bit_length (nat (\<lceil>1 / x\<rceil> - 1))))"

definition round_half_even :: "real \<Rightarrow> int" where
  "round_half_even x =
     (if x - of_int \<lfloor>x\<rfloor> < 1 / 2 then \<lfloor>x\<rfloor>
      else if 1 / 2 < x - of_int \<lfloor>x\<rfloor> then \<lfloor>x\<rfloor> + 1
      else if even \<lfloor>x\<rfloor> then \<lfloor>x\<rfloor> else \<lfloor>x\<rfloor> + 1)"

text \<open>
  The distance between neighbouring doubles at \<open>x\<close>: 53 significant bits, the exponent
  not below \<open>-1022\<close> (below it the doubles are the subnormal ones, \<open>2 ^ -1074\<close> apart).
\<close>

definition ulp :: "real \<Rightarrow> real" where
  "ulp x = pow2 (max (exponent \<bar>x\<bar>) (- 1022) - 52)"

text \<open>
  The number a real \<open>x\<close> is held as: the nearest double, a tie going to the even
  significand, and an infinity when that has the magnitude \<open>2 ^ 1024\<close> or more. This is
  how a number of the response is read and how the exact result of an operation on
  finite doubles is rounded; a double is held as itself.
\<close>

definition fl :: "real \<Rightarrow> number" where
  "fl x = (if x = 0 then Finite 0
           else (let y = of_int (round_half_even (x / ulp x)) * ulp x
                 in if pow2 1024 \<le> \<bar>y\<bar> then infinity (0 < x) else Finite y))"

text \<open>
  \<open>a - b\<close>, \<open>a * b\<close> and \<open>a / b\<close>. A divisor 0 is taken as \<open>+0\<close>; \<open>calcChangeRate\<close>
  divides by a price that is not 0 and by 100.
\<close>

fun minus_number :: "number \<Rightarrow> number \<Rightarrow> number" where
  "minus_number (Finite x) (Finite y) = fl (x - y)"
| "minus_number NaN b = NaN"
| "minus_number a NaN = NaN"
| "minus_number PlusInfinity PlusInfinity = NaN"
| "minus_number MinusInfinity MinusInfinity = NaN"
| "minus_number PlusInfinity b = PlusInfinity"
| "minus_number MinusInfinity b = MinusInfinity"
| "minus_number (Finite x) PlusInfinity = MinusInfinity"
| "minus_number (Finite x) MinusInfinity = PlusInfinity"

fun times_number :: "number \<Rightarrow> number \<Rightarrow> number" where
  "times_number (Finite x) (Finite y) = fl (x * y)"
| "times_number NaN b = NaN"
| "times_number a NaN = NaN"
| "times_number (Finite x) PlusInfinity = (if x = 0 then NaN else infinity (0 < x))"
| "times_number (Finite x) MinusInfinity = (if x = 0 then NaN else infinity (x < 0))"
| "times_number PlusInfinity (Finite y) = (if y = 0 then NaN else infinity (0 < y))"
| "times_number MinusInfinity (Finite y) = (if y = 0 then NaN else infinity (y < 0))"
| "times_number PlusInfinity PlusInfinity = PlusInfinity"
| "times_number PlusInfinity MinusInfinity = MinusInfinity"
| "times_number MinusInfinity PlusInfinity = MinusInfinity"
| "times_number MinusInfinity MinusInfinity = PlusInfinity"

fun divide_number :: "number \<Rightarrow> number \<Rightarrow> number" where
  "divide_number (Finite x) (Finite y) =
     (if y = 0 then (if x = 0 then NaN else infinity (0 < x)) else fl (x / y))"
| "divide_number NaN b = NaN"
| "divide_number a NaN = NaN"
| "divide_number (Finite x) b = Finite 0"
| "divide_number PlusInfinity (Finite y) = infinity (0 \<le> y)"
| "divide_number MinusInfinity (Finite y) = infinity (y < 0)"
| "divide_number a b = NaN"

text \<open>
  \<open>Math.round\<close> of a number: on a finite double the nearest integer is a double, so the
  result is exact.
\<close>

fun Math_round_number :: "number \<Rightarrow> number" where
  "Math_round_number (Finite x) = Finite (of_int (Math_round x))"
| "Math_round_number a = a"

section \<open>calcChangeRate\<close>

text \<open>
  \<^verbatim>\<open>if (currentPrice === null || pastPrice === null || pastPrice === 0) return null;\<close>
  \<^verbatim>\<open>return Math.round((currentPrice - pastPrice) / pastPrice * 10000) / 100;\<close>

  The two prices are held as doubles. \<open>scaled_change\<close> is the argument of
  \<open>Math.round\<close>: the subtraction, the division and the multiplication each round to a
  double, in this order, and so does the last division.
\<close>

definition scaled_change :: "real \<Rightarrow> real \<Rightarrow> number" where
  "scaled_change c p =
     times_number (divide_number (minus_number (fl c) (fl p)) (fl p)) (Finite 10000)"

definition calcChangeRate :: "real option \<Rightarrow> real option \<Rightarrow> number option" where
  "calcChangeRate currentPrice pastPrice =
     (case currentPrice of
        None \<Rightarrow> None
      | Some c \<Rightarrow>
         (case pastPrice of
            None \<Rightarrow> None
          | Some p \<Rightarrow>
             if fl p = Finite 0 then None
             else Some (divide_number (Math_round_number (scaled_change c p)) (Finite 100))))"

section \<open>findClosestPrice\<close>

text \<open>
  \<open>closes[i]\<close>: a \<open>null\<close> entry and a read past the end of the array (\<open>undefined\<close>)
  are both skipped by the source, so both are \<open>None\<close>.
\<close>

definition close_at :: "real option list \<Rightarrow> nat \<Rightarrow> real option" where
  "close_at closes i = (if i < length closes then closes ! i else None)"

text \<open>
  The loop variables \<open>bestIdx\<close> (\<open>None\<close> is the initial \<open>-1\<close>) and \<open>bestDiff\<close>
  (\<open>None\<close> is the initial \<open>Infinity\<close>).
\<close>

type_synonym best = "nat option \<times> int option"

definition lt_bestDiff :: "int \<Rightarrow> int option \<Rightarrow> bool" where
  "lt_bestDiff diff bestDiff = (case bestDiff of None \<Rightarrow> True | Some b \<Rightarrow> diff < b)"

text \<open>Body of the first loop: only observations at or before the target.\<close>

definition before_step :: "int list \<Rightarrow> real option list \<Rightarrow> int \<Rightarrow> nat \<Rightarrow> best \<Rightarrow> best" where
  "before_step timestamps closes targetTs i st =
     (case close_at closes i of
        None \<Rightarrow> st
      | Some c \<Rightarrow>
         (let diff = targetTs - timestamps ! i
          in if 0 \<le> diff \<and> lt_bestDiff diff (snd st) then (Some i, Some diff) else st))"

text \<open>Body of the second loop: absolute distance.\<close>

definition nearest_step :: "int list \<Rightarrow> real option list \<Rightarrow> int \<Rightarrow> nat \<Rightarrow> best \<Rightarrow> best" where
  "nearest_step timestamps closes targetTs i st =
     (case close_at closes i of
        None \<Rightarrow> st
      | Some c \<Rightarrow>
         (let diff = \<bar>targetTs - timestamps ! i\<bar>
          in if lt_bestDiff diff (snd st) then (Some i, Some diff) else st))"

definition findClosestPrice :: "int list \<Rightarrow> real option list \<Rightarrow> int \<Rightarrow> real option" where
  "findClosestPrice timestamps closes targetTs =
     (let st1 = fold (before_step timestamps closes targetTs) [0..<length timestamps] (None, None);
          st2 = (if fst st1 = None
                 then fold (nearest_step timestamps closes targetTs) [0..<length timestamps] st1
                 else st1)
      in case fst st2 of None \<Rightarrow> None | Some bestIdx \<Rightarrow> close_at closes bestIdx)"

text \<open>A valid observation: an index of the timestamp array whose close is present.\<close>

definition valid_obs :: "int list \<Rightarrow> real option list \<Rightarrow> nat \<Rightarrow> bool" where
  "valid_obs timestamps closes i = (i < length timestamps \<and> close_at closes i \<noteq> None)"

section \<open>fetchClosingPrice\<close>

record price_result =
  price :: "real option"
  actualDate :: "jsstring option"
  change1d :: "number option"
  change7d :: "number option"
  change14d :: "number option"
  change30d :: "number option"
  change180d :: "number option"
  error :: "jsstring option"

definition nullResult :: price_result where
  "nullResult =
     \<lparr>price = None, actualDate = None, change1d = None, change7d = None, change14d = None,
      change30d = None, change180d = None, error = None\<rparr>"

text \<open>
  The messages of the source, as code units: invalid ticker, no data, no chart data,
  no valid close.
\<close>

definition msg_invalid_ticker :: jsstring where
  "msg_invalid_ticker = [28961, 21177, 12394, 12486, 12451, 12483, 12459, 12540]"

definition msg_no_data :: jsstring where
  "msg_no_data = [12487, 12540, 12479, 12394, 12375]"

definition msg_no_chart_data :: jsstring where
  "msg_no_chart_data = [12481, 12515, 12540, 12488, 12487, 12540, 12479, 12394, 12375]"

definition msg_no_valid_close :: jsstring where
  "msg_no_valid_close = [26377, 21177, 12394, 32066, 20516, 12394, 12375]"

text \<open>
  What the request brings back. \<open>Throws m\<close>: an exception with message \<open>m\<close> is raised
  inside the \<open>try\<close> block (\<open>fetch\<close> rejects, the body is not JSON, the payload is
  \<open>null\<close>). \<open>NotOk status\<close>: \<open>response.ok\<close> is false. \<open>Ok data\<close>: the parsed body.
  In the body, \<open>NoChart\<close> is a missing \<open>data.chart\<close>, \<open>NoResult\<close> a missing
  \<open>data.chart.result\<close>; an element of \<open>result\<close> holds the optional \<open>timestamp\<close> array
  and the optional \<open>indicators.quote[0].close\<close> array.
\<close>

datatype chart_result =
  ChartResult (timestamp: "int list option") (quote_close: "real option list option")

datatype chart_data = NoChart | NoResult | Result "chart_result list"

datatype response = Throws jsstring | NotOk int | Ok chart_data

datatype tradingDay = TradingDay (td_ts: int) (td_close: real)

text \<open>The loop that pushes every observation with a present close, in array order.\<close>

definition collect_tradingDays :: "int list \<Rightarrow> real option list \<Rightarrow> tradingDay list" where
  "collect_tradingDays timestamps closes =
     concat (map (\<lambda>i. case close_at closes i of
                        None \<Rightarrow> []
                      | Some c \<Rightarrow> [TradingDay (timestamps ! i) c])
                 [0..<length timestamps])"

text \<open>
  \<open>tradingDays.sort((a, b) => a.ts - b.ts)\<close>: \<open>Array.prototype.sort\<close> is stable, as is
  \<open>sort_key\<close>.
\<close>

definition tradingDays_of :: "int list \<Rightarrow> real option list \<Rightarrow> tradingDay list" where
  "tradingDays_of timestamps closes = sort_key td_ts (collect_tradingDays timestamps closes)"

text \<open>
  The backward scan \<open>for (i = n - 1; i >= 0; i--)\<close> with its \<open>break\<close>; \<open>None\<close> is the
  \<open>currentIdx\<close> left at \<open>-1\<close>.
\<close>

fun scan_back :: "tradingDay list \<Rightarrow> int \<Rightarrow> nat \<Rightarrow> nat option" where
  "scan_back tradingDays targetTs 0 = None"
| "scan_back tradingDays targetTs (Suc i) =
     (if td_ts (tradingDays ! i) \<le> targetTs then Some i
      else scan_back tradingDays targetTs i)"

definition find_currentIdx :: "tradingDay list \<Rightarrow> int \<Rightarrow> nat" where
  "find_currentIdx tradingDays targetTs =
     (case scan_back tradingDays targetTs (length tradingDays) of
        None \<Rightarrow> 0
      | Some i \<Rightarrow> i)"

text \<open>\<open>YYYY/MM/DD\<close> from the local-time getters of a date.\<close>

definition formattedDate :: "tz \<Rightarrow> int \<Rightarrow> jsstring" where
  "formattedDate off t =
     String_int (getFullYear off t) @ [47] @ padStart 2 48 (String_int (getMonth off t + 1))
       @ [47] @ padStart 2 48 (String_int (getDate off t))"

text \<open>
  The part of \<open>fetchClosingPrice\<close> after the series is known to be non-empty: anchor,
  comparison prices, change rates and the result object. The price is rounded to one
  decimal on the number the provider sends; the change rates are computed in doubles.
\<close>

definition resolve_series ::
  "tz \<Rightarrow> int list \<Rightarrow> real option list \<Rightarrow> tradingDay list \<Rightarrow> int \<Rightarrow> price_result" where
  "resolve_series off timestamps closes tradingDays targetTs =
     (let currentIdx = find_currentIdx tradingDays targetTs;
          currentPrice = td_close (tradingDays ! currentIdx);
          actualTs = td_ts (tradingDays ! currentIdx);
          price1d = (if 1 \<le> currentIdx then Some (td_close (tradingDays ! (currentIdx - 1)))
                     else None);
          price7d = findClosestPrice timestamps closes (actualTs - 7 * 86400);
          price14d = findClosestPrice timestamps closes (actualTs - 14 * 86400);
          price30d = findClosestPrice timestamps closes (actualTs - 30 * 86400);
          price180d = findClosestPrice timestamps closes (actualTs - 180 * 86400)
      in \<lparr>price = Some (of_int (Math_round (currentPrice * 10)) / 10),
          actualDate = Some (formattedDate off (actualTs * 1000)),
          change1d = calcChangeRate (Some currentPrice) price1d,
          change7d = calcChangeRate (Some currentPrice) price7d,
          change14d = calcChangeRate (Some currentPrice) price14d,
          change30d = calcChangeRate (Some currentPrice) price30d,
          change180d = calcChangeRate (Some currentPrice) price180d,
          error = None\<rparr>)"

text \<open>
  \<open>targetTs\<close> is the timestamp the source derives from the date string (local midnight of
  the reference date, in seconds); the model takes it as given.
\<close>

definition fetchClosingPrice :: "tz \<Rightarrow> jsstring option \<Rightarrow> int \<Rightarrow> response \<Rightarrow> price_result" where
  "fetchClosingPrice off ticker targetTs resp =
     (if \<not> truthy ticker then nullResult\<lparr>error := Some msg_invalid_ticker\<rparr>
      else case resp of
        Throws m \<Rightarrow> nullResult\<lparr>error := Some m\<rparr>
      | NotOk status \<Rightarrow> nullResult\<lparr>error := Some (ascii ''HTTP '' @ String_int status)\<rparr>
      | Ok data \<Rightarrow>
         (case data of
            NoChart \<Rightarrow> nullResult\<lparr>error := Some msg_no_data\<rparr>
          | NoResult \<Rightarrow> nullResult\<lparr>error := Some msg_no_data\<rparr>
          | Result [] \<Rightarrow> nullResult\<lparr>error := Some msg_no_data\<rparr>
          | Result (result # rest) \<Rightarrow>
             (let timestamps = (case timestamp result of None \<Rightarrow> [] | Some a \<Rightarrow> a);
                  closes = (case quote_close result of None \<Rightarrow> [] | Some a \<Rightarrow> a)
              in if length timestamps = 0 \<or> length closes = 0
                 then nullResult\<lparr>error := Some msg_no_chart_data\<rparr>
                 else (let tradingDays = tradingDays_of timestamps closes
                       in if length tradingDays = 0
                          then nullResult\<lparr>error := Some msg_no_valid_close\<rparr>
                          else resolve_series off timestamps closes tradingDays targetTs))))"

section \<open>toTicker and getUniqueStocks\<close>

text \<open>
  A cell of the sheet is a string or a number (in this model a whole number).
  \<open>String(cell)\<close> is the string itself, or the text \<open>String\<close> gives the number: plain
  decimal digits below \<open>10 ^ 21\<close>, a mantissa and an exponent from there on. The text
  of a number is the parameter \<open>str\<close> of the functions below, and their properties hold
  whatever it is; \<open>String_int\<close> is \<open>str\<close> where the digits are plain.
\<close>

datatype cell = Str jsstring | Num int

definition String_cell :: "(int \<Rightarrow> jsstring) \<Rightarrow> cell \<Rightarrow> jsstring" where
  "String_cell str c = (case c of Str s \<Rightarrow> s | Num n \<Rightarrow> str n)"

definition is_alnum :: "nat \<Rightarrow> bool" where
  "is_alnum c = ((65 \<le> c \<and> c \<le> 90) \<or> (97 \<le> c \<and> c \<le> 122) \<or> (48 \<le> c \<and> c \<le> 57))"

text \<open>\<open>/^[A-Za-z0-9]+$/.test(s)\<close>\<close>

definition test_alnum :: "jsstring \<Rightarrow> bool" where
  "test_alnum s = (s \<noteq> [] \<and> list_all is_alnum s)"

definition toTicker :: "jsstring \<Rightarrow> jsstring option" where
  "toTicker rawCode =
     (let code = trim rawCode
      in if length code < 4 then None
         else (let ticker = take 4 code
               in if \<not> test_alnum ticker then None
                  else Some (ticker @ ascii ''.T'')))"

record stock =
  ticker :: "jsstring option"
  rawCode :: jsstring
  name :: jsstring

text \<open>A cell used as a condition: the empty string and the number 0 are falsy.\<close>

definition falsy_cell :: "cell \<Rightarrow> bool" where
  "falsy_cell c = (case c of Str s \<Rightarrow> s = [] | Num n \<Rightarrow> n = 0)"

text \<open>
  \<open>String(row[COL.NAME] || '').trim()\<close>: a missing cell is \<open>undefined\<close>, which is falsy
  too.
\<close>

definition row_name :: "(int \<Rightarrow> jsstring) \<Rightarrow> cell list \<Rightarrow> jsstring" where
  "row_name str row =
     trim (if COL_NAME < length row \<and> \<not> falsy_cell (row ! COL_NAME)
           then String_cell str (row ! COL_NAME)
           else [])"

text \<open>
  The body of the loop over the rows. \<open>seen\<close> is the \<open>Map\<close>, kept as the list of its
  entries in insertion order (the order of \<open>seen.values()\<close>).
\<close>

definition row_step ::
  "(int \<Rightarrow> jsstring) \<Rightarrow> cell list \<Rightarrow> (jsstring \<times> stock) list \<Rightarrow> (jsstring \<times> stock) list" where
  "row_step str row seen =
     (if length row \<le> COL_CODE then seen
      else (let rawCode = trim (String_cell str (row ! COL_CODE))
            in if rawCode = [] \<or> rawCode \<in> set (map fst seen) then seen
               else (let ticker = toTicker rawCode
                     in if \<not> truthy ticker then seen
                        else (let name = row_name str row
                              in seen @ [(rawCode, \<lparr>ticker = ticker, rawCode = rawCode, name = name\<rparr>)]))))"

definition getUniqueStocks :: "(int \<Rightarrow> jsstring) \<Rightarrow> cell list list \<Rightarrow> stock list" where
  "getUniqueStocks str rows = map snd (fold (row_step str) rows [])"

text \<open>The trimmed code of a row, when the row has a code column.\<close>

definition row_code :: "(int \<Rightarrow> jsstring) \<Rightarrow> cell list \<Rightarrow> jsstring option" where
  "row_code str row =
     (if length row \<le> COL_CODE then None else Some (trim (String_cell str (row ! COL_CODE))))"

section \<open>fetchAllPrices\<close>

record error_entry =
  err_code :: jsstring
  err_name :: jsstring
  err_ticker :: jsstring
  err_error :: jsstring

text \<open>
  What the run can be observed to do: a call of \<open>updateProgress(current, total, _)\<close>, the
  start of the requests of one batch, a call of \<open>sleep(ms)\<close>.
\<close>

datatype event = Progress nat nat | Launch "stock list" | Sleep nat

record run_state =
  isFetching :: bool
  closingPrices :: "jsstring \<rightharpoonup> price_result"
  errorMessages :: "error_entry list"
  completed :: nat
  trace :: "event list"

text \<open>
  The requests of a batch settle in an order the code does not control. A schedule is a
  list of picks: pick \<open>k\<close> settles the request at position \<open>k mod n\<close> of the \<open>n\<close> still
  pending; when the picks run out the rest settles in order. Every order can be reached.
\<close>

fun settle_order :: "nat list \<Rightarrow> 'a list \<Rightarrow> 'a list" where
  "settle_order ks [] = []"
| "settle_order [] xs = xs"
| "settle_order (k # ks) xs =
     (let j = k mod length xs
      in xs ! j # settle_order ks (take j xs @ drop (Suc j) xs))"

text \<open>
  The continuation of one request: \<open>resolve stock\<close> is what
  \<open>await fetchClosingPrice(stock.ticker, targetDateStr)\<close> returned for it, \<open>totalN\<close> is
  the variable \<open>total\<close> of the source.
\<close>

definition settle :: "(stock \<Rightarrow> price_result) \<Rightarrow> nat \<Rightarrow> stock \<Rightarrow> run_state \<Rightarrow> run_state" where
  "settle resolve totalN stock st =
     (let result = resolve stock;
          st1 = st\<lparr>closingPrices := (closingPrices st)(rawCode stock \<mapsto> result)\<rparr>;
          st2 = (if truthy (error result)
                 then st1\<lparr>errorMessages := errorMessages st1 @
                        [\<lparr>err_code = rawCode stock, err_name = name stock,
                          err_ticker = (if truthy (ticker stock) then the (ticker stock)
                                        else ascii ''N/A''),
                          err_error = the (error result)\<rparr>]\<rparr>
                 else st1);
          st3 = st2\<lparr>completed := completed st2 + 1\<rparr>
      in st3\<lparr>trace := trace st3 @ [Progress (completed st3) totalN]\<rparr>)"

function batch_loop ::
  "(stock \<Rightarrow> price_result) \<Rightarrow> (nat \<Rightarrow> nat list) \<Rightarrow> stock list \<Rightarrow> nat \<Rightarrow> run_state \<Rightarrow> run_state" where
  "batch_loop resolve sched stocks i st =
     (if i < length stocks
      then (let batch = take BATCH_SIZE (drop i stocks);
                st1 = st\<lparr>trace := trace st @ [Launch batch]\<rparr>;
                st2 = fold (settle resolve (length stocks)) (settle_order (sched i) batch) st1;
                st3 = (if i + BATCH_SIZE < length stocks
                       then st2\<lparr>trace := trace st2 @ [Sleep BATCH_DELAY_MS]\<rparr>
                       else st2)
            in batch_loop resolve sched stocks (i + BATCH_SIZE) st3)
      else st)"
  by pat_completeness auto
termination
  by (relation "measure (\<lambda>(resolve, sched, stocks, i, st). length stocks - i)")
     (auto simp: BATCH_SIZE_def)

declare batch_loop.simps [simp del]

definition fetchAllPrices ::
  "(stock \<Rightarrow> price_result) \<Rightarrow> (nat \<Rightarrow> nat list) \<Rightarrow> stock list \<Rightarrow> run_state" where
  "fetchAllPrices resolve sched stocks =
     (let totalN = length stocks;
          st0 = \<lparr>isFetching = True, closingPrices = Map.empty, errorMessages = [],
                 completed = 0, trace = [Progress 0 totalN]\<rparr>;
          st1 = batch_loop resolve sched stocks 0 st0;
          st2 = st1\<lparr>isFetching := False\<rparr>
      in st2\<lparr>trace := trace st2 @ [Progress totalN totalN]\<rparr>)"

text \<open>
  The resolver of a run, \<open>fetchClosingPrice(stock.ticker, targetDateStr)\<close>, where
  \<open>net stock\<close> is what the request for the instrument brings back.
\<close>

definition resolver :: "tz \<Rightarrow> int \<Rightarrow> (stock \<Rightarrow> response) \<Rightarrow> stock \<Rightarrow> price_result" where
  "resolver off targetTs net stock = fetchClosingPrice off (ticker stock) targetTs (net stock)"

text \<open>Projections of the trace.\<close>

definition launches :: "event list \<Rightarrow> stock list list" where
  "launches tr = concat (map (\<lambda>e. case e of Launch b \<Rightarrow> [b] | _ \<Rightarrow> []) tr)"

definition is_progress :: "event \<Rightarrow> bool" where
  "is_progress e = (case e of Progress c t \<Rightarrow> True | _ \<Rightarrow> False)"

definition progress_calls :: "event list \<Rightarrow> event list" where
  "progress_calls tr = filter is_progress tr"

definition pacing :: "event list \<Rightarrow> event list" where
  "pacing tr = filter (\<lambda>e. \<not> is_progress e) tr"

text \<open>\<open>x\<close> placed between every two consecutive elements of a list.\<close>

fun intersperse :: "'a \<Rightarrow> 'a list \<Rightarrow> 'a list" where
  "intersperse x [] = []"
| "intersperse x [a] = [a]"
| "intersperse x (a # b # bs) = a # x # intersperse x (b # bs)"

section \<open>Example inputs\<close>

text \<open>A host in Tokyo: the offset is -540 minutes at every instant.\<close>

definition tokyo :: tz where
  "tokyo t = - 540"

text \<open>The series of the examples: closes 10, 20, 30 at the timestamps 100, 200, 300.\<close>

definition series_ts :: "int list" where
  "series_ts = [100, 200, 300]"

definition series_closes :: "real option list" where
  "series_closes = [Some 10, Some 20, Some 30]"

definition series_response :: response where
  "series_response = Ok (Result [ChartResult (Some series_ts) (Some series_closes)])"

definition stock_1301 :: stock where
  "stock_1301 = \<lparr>ticker = Some (ascii ''1301.T''), rawCode = ascii ''1301'', name = ascii ''A''\<rparr>"

definition stock_1332 :: stock where
  "stock_1332 = \<lparr>ticker = Some (ascii ''1332.T''), rawCode = ascii ''1332'', name = ascii ''B''\<rparr>"

text \<open>Twelve instruments with the codes 1301 to 1312.\<close>

definition twelve_stocks :: "stock list" where
  "twelve_stocks =
     map (\<lambda>k. \<lparr>ticker = Some (digits (1301 + k) @ ascii ''.T''), rawCode = digits (1301 + k),
               name = []\<rparr>) [0..<12]"

text \<open>A resolver whose every request is answered with status 500.\<close>

definition all_status_500 :: "stock \<Rightarrow> price_result" where
  "all_status_500 s = fetchClosingPrice tokyo (ticker s) 0 (NotOk 500)"

text \<open>
  Two providers: the request for 1301 is answered with status 500 and every other one
  with the series; every request raises an exception whose message is empty.
\<close>

definition first_fails :: "stock \<Rightarrow> response" where
  "first_fails s = (if rawCode s = ascii ''1301'' then NotOk 500 else series_response)"

definition empty_message :: "stock \<Rightarrow> response" where
  "empty_message s = Throws []"

text \<open>The schedule in which every batch settles in the order of the list.\<close>

definition in_order :: "nat \<Rightarrow> nat list" where
  "in_order i = []"

text \<open>Two rows with the code 1301, as a number and as a padded string.\<close>

definition two_rows :: "cell list list" where
  "two_rows = [[Num 20240101, Num 1301, Str (ascii ''A '')],
               [Num 20240101, Str (ascii '' 1301''), Str (ascii ''B'')]]"

section \<open>Invariants and closed forms used in the proofs\<close>

text \<open>Invariant of the first loop after the indices below \<open>n\<close>.\<close>

definition before_inv :: "int list \<Rightarrow> real option list \<Rightarrow> int \<Rightarrow> nat \<Rightarrow> best \<Rightarrow> bool" where
  "before_inv ts cs t n st =
     (case fst st of
        None \<Rightarrow> snd st = None \<and> (\<forall>i<n. \<not> (valid_obs ts cs i \<and> ts ! i \<le> t))
      | Some b \<Rightarrow> snd st = Some (t - ts ! b) \<and> b < n \<and> valid_obs ts cs b \<and> ts ! b \<le> t
          \<and> (\<forall>j<n. valid_obs ts cs j \<and> ts ! j \<le> t \<longrightarrow> t - ts ! b \<le> t - ts ! j)
          \<and> (\<forall>j<b. valid_obs ts cs j \<and> ts ! j \<le> t \<longrightarrow> t - ts ! b < t - ts ! j))"

text \<open>Invariant of the second loop after the indices below \<open>n\<close>.\<close>

definition nearest_inv :: "int list \<Rightarrow> real option list \<Rightarrow> int \<Rightarrow> nat \<Rightarrow> best \<Rightarrow> bool" where
  "nearest_inv ts cs t n st =
     (case fst st of
        None \<Rightarrow> snd st = None \<and> (\<forall>i<n. \<not> valid_obs ts cs i)
      | Some b \<Rightarrow> snd st = Some \<bar>t - ts ! b\<bar> \<and> b < n \<and> valid_obs ts cs b
          \<and> (\<forall>j<n. valid_obs ts cs j \<longrightarrow> \<bar>t - ts ! b\<bar> \<le> \<bar>t - ts ! j\<bar>)
          \<and> (\<forall>j<b. valid_obs ts cs j \<longrightarrow> \<bar>t - ts ! b\<bar> < \<bar>t - ts ! j\<bar>))"

text \<open>A trimmed code that \<open>toTicker\<close> accepts.\<close>

definition accepted :: "jsstring \<Rightarrow> bool" where
  "accepted k = (4 \<le> length k \<and> list_all is_alnum (take 4 k))"

text \<open>
  Invariant of the loop of \<open>getUniqueStocks\<close> after the rows \<open>rows\<close>: the keys are
  distinct, every entry comes from the first row with its code, and every accepted code
  seen so far has an entry.
\<close>

definition seen_inv ::
  "(int \<Rightarrow> jsstring) \<Rightarrow> cell list list \<Rightarrow> (jsstring \<times> stock) list \<Rightarrow> bool" where
  "seen_inv str rows seen =
     (distinct (map fst seen)
      \<and> (\<forall>(k, s)\<in>set seen.
            rawCode s = k \<and> accepted k \<and> ticker s = Some (take 4 k @ ascii ''.T'')
            \<and> (\<exists>i<length rows. row_code str (rows ! i) = Some k
                  \<and> (\<forall>j<i. row_code str (rows ! j) \<noteq> Some k) \<and> name s = row_name str (rows ! i)))
      \<and> (\<forall>i<length rows. \<forall>k. row_code str (rows ! i) = Some k \<and> accepted k \<longrightarrow> k \<in> fst ` set seen))"

text \<open>
  The batches from position \<open>i\<close> on, in closed form: batch \<open>k\<close> is the slice of
  \<open>BATCH_SIZE\<close> elements that starts at \<open>i + BATCH_SIZE * k\<close>.
\<close>

definition batches_from :: "'a list \<Rightarrow> nat \<Rightarrow> 'a list list" where
  "batches_from xs i =
     map (\<lambda>k. take BATCH_SIZE (drop (i + BATCH_SIZE * k) xs))
         [0..<(length xs - i + (BATCH_SIZE - 1)) div BATCH_SIZE]"

text \<open>The entry pushed to \<open>errorMessages\<close> for a stock whose result has a truthy error.\<close>

definition error_entry_of :: "(stock \<Rightarrow> price_result) \<Rightarrow> stock \<Rightarrow> error_entry" where
  "error_entry_of resolve stock =
     \<lparr>err_code = rawCode stock, err_name = name stock,
      err_ticker = (if truthy (ticker stock) then the (ticker stock) else ascii ''N/A''),
      err_error = the (error (resolve stock))\<rparr>"

text \<open>The effect of one iteration of the batch loop.\<close>

definition batch_body ::
  "(stock \<Rightarrow> price_result) \<Rightarrow> (nat \<Rightarrow> nat list) \<Rightarrow> stock list \<Rightarrow> nat \<Rightarrow> run_state \<Rightarrow> run_state" where
  "batch_body resolve sched stocks i st =
     (let st2 = fold (settle resolve (length stocks))
                  (settle_order (sched i) (take BATCH_SIZE (drop i stocks)))
                  (st\<lparr>trace := trace st @ [Launch (take BATCH_SIZE (drop i stocks))]\<rparr>)
      in if i + BATCH_SIZE < length stocks
         then st2\<lparr>trace := trace st2 @ [Sleep BATCH_DELAY_MS]\<rparr> else st2)"

section \<open>Facts about the example inputs\<close>

lemma series_valid: "valid_obs series_ts series_closes i \<longleftrightarrow> i < 3"
  by (auto simp: valid_obs_def close_at_def series_ts_def series_closes_def nth_Cons' less_Suc_eq
      numeral_3_eq_3)

lemma series_index: "i < 3 \<Longrightarrow> i = 0 \<or> i = 1 \<or> i = (2::nat)"
  by linarith

lemma series_tradingDays:
  "tradingDays_of series_ts series_closes = [TradingDay 100 10, TradingDay 200 20, TradingDay 300 30]"
  by (simp add: tradingDays_of_def collect_tradingDays_def close_at_def series_ts_def
      series_closes_def upt_rec)

lemma truthy_1301: "truthy (Some (ascii ''1301.T''))"
  by (simp add: truthy_def ascii_def)

lemma length_twelve_stocks: "length twelve_stocks = 12"
  by (simp add: twelve_stocks_def)

section \<open>Properties of double-precision arithmetic\<close>

lemma bit_length_bounds:
  "0 < n \<Longrightarrow> 2 ^ (bit_length n - 1) \<le> n \<and> n < 2 ^ bit_length n"
proof (induction n rule: bit_length.induct)
  case (1 n)
  show ?case
  proof (cases "n div 2 = 0")
    case True
    with 1 have "n = 1" by presburger
    then show ?thesis by (simp add: bit_length.simps)
  next
    case False
    define k where "k = bit_length (n div 2)"
    from False 1 have ih: "2 ^ (k - 1) \<le> n div 2 \<and> n div 2 < 2 ^ k"
      unfolding k_def by simp
    have kpos: "0 < k" using False by (simp add: k_def bit_length.simps [of "n div 2"])
    have bl: "bit_length n = Suc k" using 1(2) by (simp add: k_def bit_length.simps [of n])
    from kpos have p: "(2::nat) ^ k = 2 * 2 ^ (k - 1)" by (cases k) simp_all
    have "(2::nat) ^ k \<le> 2 * (n div 2)" using ih p by simp
    also have "\<dots> \<le> n" by simp
    finally have lo: "(2::nat) ^ k \<le> n" .
    from ih have "n div 2 + 1 \<le> 2 ^ k" by simp
    then have "2 * (n div 2 + 1) \<le> 2 * 2 ^ k" by simp
    moreover have "n < 2 * (n div 2 + 1)" by presburger
    ultimately have hi: "n < 2 ^ Suc k" by simp
    from lo hi show ?thesis by (simp add: bl)
  qed
qed

text \<open>\<open>exponent\<close> is the binary exponent.\<close>

lemma exponent_bounds:
  assumes "0 < x"
  shows "pow2 (exponent x) \<le> x \<and> x < pow2 (exponent x + 1)"
proof (cases "1 \<le> x")
  case True
  define n where "n = nat \<lfloor>x\<rfloor>"
  from True have n1: "0 < n" by (simp add: n_def)
  from True have nx: "real n \<le> x" "x < real n + 1" by (simp_all add: n_def)
  from bit_length_bounds [OF n1] have b: "2 ^ (bit_length n - 1) \<le> n" "n < 2 ^ bit_length n"
    by simp_all
  have kpos: "0 < bit_length n" using n1 by (simp add: bit_length.simps [of n])
  have e: "exponent x = int (bit_length n) - 1" using True by (simp add: exponent_def n_def)
  have e1: "pow2 (exponent x) = 2 ^ (bit_length n - 1)"
    using kpos by (simp add: e pow2_def nat_diff_distrib')
  have e2: "pow2 (exponent x + 1) = 2 ^ bit_length n"
    by (simp add: e pow2_def)
  have "real (2 ^ (bit_length n - 1)) \<le> real n" using b(1) by (rule of_nat_mono)
  then have "real (2 ^ (bit_length n - 1)) \<le> x" using nx(1) by (rule order_trans)
  then have lo: "pow2 (exponent x) \<le> x" by (simp add: e1)
  from b(2) have "n + 1 \<le> 2 ^ bit_length n" by simp
  then have "real (n + 1) \<le> real (2 ^ bit_length n)" by (rule of_nat_mono)
  then have hi: "x < pow2 (exponent x + 1)" using nx(2) by (simp add: e2)
  from lo hi show ?thesis ..
next
  case False
  with assms have x1: "x < 1" by simp
  define m where "m = \<lceil>1 / x\<rceil>"
  define n where "n = nat (m - 1)"
  from assms x1 have "1 < 1 / x" by simp
  then have m2: "2 \<le> m" unfolding m_def by linarith
  then have n1: "0 < n" by (simp add: n_def)
  have mn: "m = int n + 1" using m2 by (simp add: n_def)
  have mx: "1 / x \<le> of_int m" "of_int m - 1 < 1 / x" unfolding m_def by linarith+
  define k where "k = bit_length n"
  from bit_length_bounds [OF n1] have b: "2 ^ (k - 1) \<le> n" "n < 2 ^ k"
    by (simp_all add: k_def)
  have kpos: "0 < k" using n1 by (simp add: k_def bit_length.simps [of n])
  have e: "exponent x = - int k" using False by (simp add: exponent_def k_def n_def m_def)
  have e1: "pow2 (exponent x) = 1 / 2 ^ k" using kpos by (simp add: e pow2_def)
  have e2: "pow2 (exponent x + 1) = 1 / 2 ^ (k - 1)"
  proof (cases "k = 1")
    case True
    then show ?thesis by (simp add: e pow2_def)
  next
    case False
    with kpos have "1 < k" by simp
    then have "nat (int k - 1) = k - 1" "\<not> 0 \<le> - int k + 1" by simp_all
    then show ?thesis by (simp add: e pow2_def)
  qed
  from b(2) have "n + 1 \<le> 2 ^ k" by simp
  then have "real (n + 1) \<le> real (2 ^ k)" by (rule of_nat_mono)
  then have "1 / x \<le> 2 ^ k" using mx(1) by (simp add: mn)
  then have "1 \<le> 2 ^ k * x" using assms by (simp add: pos_divide_le_eq)
  then have lo: "pow2 (exponent x) \<le> x" by (simp add: e1 pos_divide_le_eq mult.commute)
  have "real (2 ^ (k - 1)) \<le> real n" using b(1) by (rule of_nat_mono)
  moreover have "real n < 1 / x" using mx(2) by (simp add: mn)
  ultimately have "real (2 ^ (k - 1)) < 1 / x" by (rule le_less_trans)
  then have "2 ^ (k - 1) < 1 / x" by simp
  then have "2 ^ (k - 1) * x < 1" using assms by (simp add: pos_less_divide_eq)
  then have hi: "x < pow2 (exponent x + 1)" by (simp add: e2 pos_less_divide_eq mult.commute)
  from lo hi show ?thesis ..
qed

lemma round_half_even_close: "\<bar>of_int (round_half_even x) - x\<bar> \<le> 1 / 2"
  unfolding round_half_even_def by (auto; linarith)

lemma ulp_pos: "0 < ulp x"
  by (simp add: ulp_def pow2_def)

text \<open>
  A finite \<open>fl x\<close> is a whole multiple of the spacing at \<open>x\<close> and at most half a spacing
  away from \<open>x\<close>.
\<close>

lemma fl_nearest:
  assumes "fl x = Finite y"
  shows "\<bar>y - x\<bar> \<le> ulp x / 2 \<and> (\<exists>m::int. y = of_int m * ulp x)"
proof (cases "x = 0")
  case True
  with assms have "y = 0" by (simp add: fl_def)
  with True show ?thesis using ulp_pos [of 0] by (auto intro: exI [of _ 0])
next
  case False
  with assms have y: "y = of_int (round_half_even (x / ulp x)) * ulp x"
    by (simp add: fl_def Let_def infinity_def split: if_splits)
  have "\<bar>of_int (round_half_even (x / ulp x)) - x / ulp x\<bar> \<le> 1 / 2"
    by (rule round_half_even_close)
  then have "\<bar>of_int (round_half_even (x / ulp x)) - x / ulp x\<bar> * ulp x \<le> 1 / 2 * ulp x"
    using ulp_pos [of x] by (simp only: mult_le_cancel_right_pos)
  moreover have "\<bar>of_int (round_half_even (x / ulp x)) - x / ulp x\<bar> * ulp x = \<bar>y - x\<bar>"
  proof -
    have "\<bar>of_int (round_half_even (x / ulp x)) - x / ulp x\<bar> * ulp x
            = \<bar>(of_int (round_half_even (x / ulp x)) - x / ulp x) * ulp x\<bar>"
      using ulp_pos [of x] by (simp add: abs_mult)
    also have "(of_int (round_half_even (x / ulp x)) - x / ulp x) * ulp x = y - x"
      using ulp_pos [of x] by (simp add: y left_diff_distrib)
    finally show ?thesis .
  qed
  ultimately have "\<bar>y - x\<bar> \<le> ulp x / 2" by simp
  then show ?thesis using y by blast
qed

lemma pow2_power_int: "pow2 k = power_int 2 k"
  by (simp add: pow2_def power_int_def field_simps)

lemma pow2_pos: "0 < pow2 k"
  by (simp add: pow2_def)

lemma pow2_add: "pow2 (a + b) = pow2 a * pow2 b"
  by (simp add: pow2_power_int power_int_add)

lemma pow2_less: "a < b \<Longrightarrow> pow2 a < pow2 b"
  by (simp add: pow2_power_int power_int_strict_increasing)

lemma pow2_le: "a \<le> b \<Longrightarrow> pow2 a \<le> pow2 b"
  by (simp add: pow2_power_int power_int_increasing)

lemma pow2_52: "pow2 (e - 52) * 2 ^ 52 = pow2 e"
proof -
  have "pow2 e = pow2 ((e - 52) + 52)" by simp
  also have "\<dots> = pow2 (e - 52) * pow2 52" by (rule pow2_add)
  also have "pow2 52 = 2 ^ 52" by (simp add: pow2_def)
  finally show ?thesis by simp
qed

lemma pow2_Suc: "pow2 (e + 1) = 2 * pow2 e"
  using pow2_add [of e 1] by (simp add: pow2_def)

lemma exponent_unique:
  assumes "0 < x" "pow2 e \<le> x" "x < pow2 (e + 1)"
  shows "exponent x = e"
proof -
  from exponent_bounds [OF assms(1)]
  have b: "pow2 (exponent x) \<le> x" "x < pow2 (exponent x + 1)" by simp_all
  have "\<not> e + 1 \<le> exponent x"
  proof
    assume "e + 1 \<le> exponent x"
    then have "pow2 (e + 1) \<le> pow2 (exponent x)" by (rule pow2_le)
    with b(1) assms(3) show False by simp
  qed
  moreover have "\<not> exponent x + 1 \<le> e"
  proof
    assume "exponent x + 1 \<le> e"
    then have "pow2 (exponent x + 1) \<le> pow2 e" by (rule pow2_le)
    with b(2) assms(2) show False by simp
  qed
  ultimately show ?thesis by simp
qed

lemma round_half_even_of_int: "round_half_even (of_int k) = k"
  by (simp add: round_half_even_def)

lemma round_half_even_ge: "of_int k \<le> z \<Longrightarrow> k \<le> round_half_even z"
  unfolding round_half_even_def by (auto simp: le_floor_iff; linarith)

lemma round_half_even_le: "z \<le> of_int k \<Longrightarrow> round_half_even z \<le> k"
  unfolding round_half_even_def by (auto; linarith)

lemma fl_of_multiple:
  assumes "y = of_int k * ulp y" "\<not> pow2 1024 \<le> \<bar>y\<bar>"
  shows "fl y = Finite y"
proof (cases "y = 0")
  case True
  then show ?thesis by (simp add: fl_def)
next
  case False
  have "y / ulp y = of_int k" using assms(1) ulp_pos [of y]
    by (metis less_irrefl nonzero_mult_div_cancel_right)
  then have "of_int (round_half_even (y / ulp y)) * ulp y = y"
    using assms(1) by (simp add: round_half_even_of_int)
  with False assms(2) show ?thesis by (simp add: fl_def Let_def)
qed

text \<open>A double is held as itself: \<open>fl\<close> leaves its finite values unchanged.\<close>

lemma fl_idempotent:
  assumes "fl x = Finite y"
  shows "fl y = Finite y"
proof (cases "x = 0")
  case True
  with assms have "y = 0" by (simp add: fl_def)
  then show ?thesis by (simp add: fl_def)
next
  case False
  define E where "E = max (exponent \<bar>x\<bar>) (- 1022)"
  define u where "u = pow2 (E - 52)"
  define m where "m = round_half_even (x / u)"
  define Q where "Q = (2::int) ^ 52"
  define P where "P = (2::real) ^ 52"
  have PQ: "of_int Q = P" by (simp add: P_def Q_def)
  have PQ2: "(of_int (2 * Q) :: real) = 2 * P" "(of_int (- (2 * Q)) :: real) = - (2 * P)"
    "(of_int (- Q) :: real) = - P" by (simp_all add: PQ)
  have Ppos: "0 < P" by (simp add: P_def)
  have ux: "ulp x = u" by (simp add: ulp_def u_def E_def)
  from assms False have y: "y = of_int m * u" and fin: "\<not> pow2 1024 \<le> \<bar>y\<bar>"
    by (simp_all add: fl_def Let_def infinity_def ux m_def split: if_splits)
  have upos: "0 < u" unfolding u_def by (rule pow2_pos)
  have u52: "P * u = pow2 E" using pow2_52 [of E] by (simp add: u_def P_def mult.commute)
  have u53: "2 * P * u = pow2 (E + 1)" using u52 by (simp add: pow2_Suc)
  from False have xpos: "0 < \<bar>x\<bar>" by simp
  from exponent_bounds [OF xpos]
  have xb: "pow2 (exponent \<bar>x\<bar>) \<le> \<bar>x\<bar>" "\<bar>x\<bar> < pow2 (exponent \<bar>x\<bar> + 1)" by simp_all
  have "pow2 (exponent \<bar>x\<bar> + 1) \<le> pow2 (E + 1)" by (rule pow2_le) (simp add: E_def)
  with xb(2) have "\<bar>x\<bar> < pow2 (E + 1)" by (rule less_le_trans)
  then have "\<bar>x\<bar> < 2 * P * u" by (simp only: u53)
  then have a53: "\<bar>x / u\<bar> < 2 * P" using upos by (simp add: pos_divide_less_eq)
  have m_hi: "m \<le> 2 * Q"
  proof -
    from a53 have "x / u \<le> of_int (2 * Q)" unfolding PQ2 by linarith
    then show ?thesis unfolding m_def by (rule round_half_even_le)
  qed
  have m_lo: "- (2 * Q) \<le> m"
  proof -
    from a53 have "of_int (- (2 * Q)) \<le> x / u" unfolding PQ2 by linarith
    then show ?thesis unfolding m_def by (rule round_half_even_ge)
  qed
  have yabs: "\<bar>y\<bar> = of_int \<bar>m\<bar> * u" using upos by (simp add: y abs_mult)
  show ?thesis
  proof (cases "m = 0")
    case True
    then show ?thesis by (simp add: y fl_def)
  next
    case m0: False
    then have ypos: "0 < \<bar>y\<bar>" using upos by (simp add: y)
    show ?thesis
    proof (cases "- 1022 \<le> exponent \<bar>x\<bar>")
      case True
      then have E: "E = exponent \<bar>x\<bar>" "- 1022 \<le> E" by (simp_all add: E_def)
      from xb(1) have "P * u \<le> \<bar>x\<bar>" by (simp only: E(1) [symmetric] u52)
      then have a52: "P \<le> \<bar>x / u\<bar>" using upos by (simp add: pos_le_divide_eq)
      have m52: "Q \<le> \<bar>m\<bar>"
      proof (cases "0 \<le> x / u")
        case True
        with a52 have "of_int Q \<le> x / u" unfolding PQ by linarith
        then have "Q \<le> m" unfolding m_def by (rule round_half_even_ge)
        then show ?thesis by simp
      next
        case False
        with a52 have "x / u \<le> of_int (- Q)" unfolding PQ2 by linarith
        then have "m \<le> - Q" unfolding m_def by (rule round_half_even_le)
        then show ?thesis by simp
      qed
      from m_hi m_lo have m53: "\<bar>m\<bar> \<le> 2 * Q" by simp
      have lo: "pow2 E \<le> \<bar>y\<bar>"
      proof -
        from m52 have "(of_int Q :: real) \<le> of_int \<bar>m\<bar>" by (simp only: of_int_le_iff)
        then have "P * u \<le> of_int \<bar>m\<bar> * u" using upos by (simp add: PQ)
        then show ?thesis by (simp only: u52 yabs)
      qed
      show ?thesis
      proof (cases "\<bar>m\<bar> = 2 * Q")
        case True
        then have "of_int \<bar>m\<bar> = 2 * P" by (simp add: PQ [symmetric])
        then have ya: "\<bar>y\<bar> = pow2 (E + 1)" by (simp only: yabs u53)
        have "exponent \<bar>y\<bar> = E + 1"
        proof (rule exponent_unique [OF ypos])
          show "pow2 (E + 1) \<le> \<bar>y\<bar>" by (simp add: ya)
          show "\<bar>y\<bar> < pow2 (E + 1 + 1)" unfolding ya by (rule pow2_less) simp
        qed
        then have uy: "ulp y = 2 * u"
          using E(2) pow2_Suc [of "E - 52"] by (simp add: ulp_def u_def max_def)
        from True have "m = 2 * Q \<or> m = - (2 * Q)" by (simp add: abs_if split: if_splits)
        then obtain k where k: "m = 2 * k" by (elim disjE) (auto intro: that [of Q] that [of "- Q"])
        have yk: "y = of_int k * (2 * u)" by (simp add: y k)
        have "y = of_int k * ulp y" unfolding uy by (rule yk)
        then show ?thesis using fin by (rule fl_of_multiple)
      next
        case False
        with m53 have "\<bar>m\<bar> < 2 * Q" by simp
        then have "(of_int \<bar>m\<bar> :: real) < of_int (2 * Q)" by (simp only: of_int_less_iff)
        then have "of_int \<bar>m\<bar> * u < 2 * P * u" using upos by (simp add: PQ)
        then have hi: "\<bar>y\<bar> < pow2 (E + 1)" by (simp only: u53 yabs)
        from ypos lo hi have "exponent \<bar>y\<bar> = E" by (rule exponent_unique)
        then have uy: "ulp y = u" using E(2) by (simp add: ulp_def u_def max_def)
        have "y = of_int m * ulp y" unfolding uy by (rule y)
        then show ?thesis using fin by (rule fl_of_multiple)
      qed
    next
      case False
      then have E: "E = - 1022" by (simp add: E_def)
      from False have "exponent \<bar>x\<bar> + 1 \<le> - 1022" by simp
      then have "pow2 (exponent \<bar>x\<bar> + 1) \<le> pow2 (- 1022)" by (rule pow2_le)
      with xb(2) have "\<bar>x\<bar> < pow2 E" unfolding E by (rule less_le_trans)
      then have "\<bar>x\<bar> < P * u" by (simp only: u52)
      then have a52: "\<bar>x / u\<bar> < P" using upos by (simp add: pos_divide_less_eq)
      have "m \<le> Q"
      proof -
        from a52 have "x / u \<le> of_int Q" unfolding PQ by linarith
        then show ?thesis unfolding m_def by (rule round_half_even_le)
      qed
      moreover have "- Q \<le> m"
      proof -
        from a52 have "of_int (- Q) \<le> x / u" unfolding PQ2 by linarith
        then show ?thesis unfolding m_def by (rule round_half_even_ge)
      qed
      ultimately have "\<bar>m\<bar> \<le> Q" by simp
      then have "(of_int \<bar>m\<bar> :: real) \<le> of_int Q" by (simp only: of_int_le_iff)
      then have "of_int \<bar>m\<bar> * u \<le> P * u" using upos by (simp add: PQ)
      then have hi: "\<bar>y\<bar> \<le> pow2 E" by (simp only: u52 yabs)
      have "exponent \<bar>y\<bar> \<le> - 1022"
      proof (rule ccontr)
        assume "\<not> exponent \<bar>y\<bar> \<le> - 1022"
        then have "E < exponent \<bar>y\<bar>" by (simp add: E)
        then have "pow2 E < pow2 (exponent \<bar>y\<bar>)" by (rule pow2_less)
        with exponent_bounds [OF ypos] hi show False by simp
      qed
      then have uy: "ulp y = u" by (simp add: ulp_def u_def E max_def)
      have "y = of_int m * ulp y" unfolding uy by (rule y)
      then show ?thesis using fin by (rule fl_of_multiple)
    qed
  qed
qed

text \<open>On prices that are doubles, \<open>scaled_change\<close> starts from the prices themselves.\<close>

lemma scaled_change_doubles:
  assumes "fl c = Finite c" "fl p = Finite p"
  shows "scaled_change c p
           = times_number (divide_number (fl (c - p)) (Finite p)) (Finite 10000)"
  by (simp add: scaled_change_def assms)

lemmas double_eval =
  fl_def ulp_def Let_def infinity_def exponent_def bit_length.simps pow2_def
  round_half_even_def Math_round_def

text \<open>The whole numbers of the examples are doubles.\<close>

lemma fl_examples:
  "fl 10 = Finite 10" "fl 20 = Finite 20" "fl 31 = Finite 31" "fl 32 = Finite 32"
  "fl 95 = Finite 95" "fl 100 = Finite 100" "fl 110 = Finite 110" "fl 783 = Finite 783"
  "fl 800 = Finite 800" "fl 857 = Finite 857"
  by (simp_all add: double_eval)

section \<open>Properties of calcChangeRate\<close>

lemma Math_round_eq_half_away:
  assumes "0 \<le> x \<or> x + 1 / 2 \<notin> \<int>"
  shows "Math_round x = round_half_away_spec x"
proof (cases "x < 0")
  case False
  then show ?thesis by (simp add: Math_round_def round_half_away_spec_def)
next
  case True
  with assms have ni: "x + 1 / 2 \<notin> \<int>" by simp
  have ni2: "x - 1 / 2 \<notin> \<int>"
  proof
    assume a: "x - 1 / 2 \<in> \<int>"
    have "x + 1 / 2 = (x - 1 / 2) + 1" by simp
    also have "\<dots> \<in> \<int>" using a by (intro Ints_add Ints_1)
    finally show False using ni by simp
  qed
  have "- \<lfloor>- x + 1 / 2\<rfloor> = \<lceil>x - 1 / 2\<rceil>" by (simp add: ceiling_def)
  also have "\<dots> = \<lfloor>x - 1 / 2\<rfloor> + 1" 
  proof -
    from ni2 have "x - 1 / 2 \<noteq> of_int \<lfloor>x - 1 / 2\<rfloor>" by (metis Ints_of_int)
    then show ?thesis by (simp only: ceiling_altdef if_False)
  qed
  also have "\<dots> = \<lfloor>x - 1 / 2 + 1\<rfloor>" by (rule one_add_floor)
  also have "x - 1 / 2 + 1 = x + 1 / 2" by simp
  finally show ?thesis using True by (simp add: Math_round_def round_half_away_spec_def)
qed

text \<open>
  The argument of \<open>Math.round\<close> as the doubles give it, on four pairs of prices. From 32
  to 31 every step is exact and the product is the tie -312.5. From 800 to 783 the exact
  product would be the tie -212.5; the quotient -0.02125 is not a double, and the
  product of its double by 10000 lies below the tie. From 800 to 857 the exact product
  would be the tie 712.5, and the doubles give a value below it.
\<close>

lemma scaled_change_31_32: "scaled_change 31 32 = Finite (- 625 / 2)"
  by (simp add: scaled_change_def fl_examples) (simp add: double_eval)

lemma scaled_change_783_800:
  "scaled_change 783 800 = Finite (- 7476679068876801 / 35184372088832)"
  by (simp add: scaled_change_def fl_examples) (simp add: double_eval)

lemma scaled_change_857_800:
  "scaled_change 857 800 = Finite (6267216278323199 / 8796093022208)"
  by (simp add: scaled_change_def fl_examples) (simp add: double_eval)

lemma scaled_change_110_100: "scaled_change 110 100 = Finite 1000"
  by (simp add: scaled_change_def fl_examples) (simp add: double_eval)

lemma scaled_change_95_100: "scaled_change 95 100 = Finite (- 500)"
  by (simp add: scaled_change_def fl_examples) (simp add: double_eval)

text \<open>
  \<open>calcChangeRate(783, 800)\<close> is -2.13 and \<open>calcChangeRate(857, 800)\<close> is 7.12, that is,
  the doubles these literals denote.
\<close>

lemma calcChangeRate_off_tie_examples:
  "calcChangeRate (Some 783) (Some 800) = Some (fl (- 213 / 100))"
  "calcChangeRate (Some 857) (Some 800) = Some (fl (712 / 100))"
  by (simp_all add: calcChangeRate_def fl_examples scaled_change_783_800 scaled_change_857_800
        Math_round_def)

text \<open>
  Claim C2, as the code has it. \<open>calcChangeRate\<close> is \<open>null\<close> when either price is
  \<open>null\<close> or the past price is 0 (as a double). Otherwise let \<open>y\<close> be the double that
  \<open>(current - past) / past * 10000\<close> evaluates to. The result is the double nearest to
  \<open>Math.round(y) / 100\<close>, where \<open>Math.round\<close> sends a tie towards plus infinity; this is
  the rounding half away from zero of the specification whenever \<open>y\<close> is not negative or
  not a tie. When the product is not finite, the result is that infinity or \<open>NaN\<close>.
  \<open>calcChangeRate(110, 100)\<close> is 10 and \<open>calcChangeRate(95, 100)\<close> is -5.
\<close>

theorem calcChangeRate_rounds_half_up:
  "calcChangeRate None past = None
   \<and> calcChangeRate current None = None
   \<and> calcChangeRate current (Some 0) = None
   \<and> (fl p = Finite 0 \<longrightarrow> calcChangeRate current (Some p) = None)
   \<and> (fl p \<noteq> Finite 0 \<and> scaled_change c p = Finite y \<longrightarrow>
        calcChangeRate (Some c) (Some p) = Some (fl (of_int \<lfloor>y + 1 / 2\<rfloor> / 100)))
   \<and> (fl p \<noteq> Finite 0 \<and> scaled_change c p = Finite y \<and> (0 \<le> y \<or> y + 1 / 2 \<notin> \<int>) \<longrightarrow>
        calcChangeRate (Some c) (Some p) = Some (fl (of_int (round_half_away_spec y) / 100)))
   \<and> (fl p \<noteq> Finite 0 \<and> (\<forall>y. scaled_change c p \<noteq> Finite y) \<longrightarrow>
        calcChangeRate (Some c) (Some p) = Some (scaled_change c p))
   \<and> calcChangeRate (Some 110) (Some 100) = Some (Finite 10)
   \<and> calcChangeRate (Some 95) (Some 100) = Some (Finite (- 5))"
proof -
  have a: "calcChangeRate None past = None" by (simp add: calcChangeRate_def)
  have b: "calcChangeRate current None = None" by (simp add: calcChangeRate_def split: option.splits)
  have c: "calcChangeRate current (Some 0) = None"
    by (simp add: calcChangeRate_def fl_def split: option.splits)
  have d: "fl p = Finite 0 \<longrightarrow> calcChangeRate current (Some p) = None"
    by (simp add: calcChangeRate_def split: option.splits)
  have e: "fl p \<noteq> Finite 0 \<and> scaled_change c p = Finite y \<longrightarrow>
        calcChangeRate (Some c) (Some p) = Some (fl (of_int \<lfloor>y + 1 / 2\<rfloor> / 100))"
    by (simp add: calcChangeRate_def Math_round_def)
  have f: "fl p \<noteq> Finite 0 \<and> scaled_change c p = Finite y \<and> (0 \<le> y \<or> y + 1 / 2 \<notin> \<int>) \<longrightarrow>
        calcChangeRate (Some c) (Some p) = Some (fl (of_int (round_half_away_spec y) / 100))"
  proof (intro impI, elim conjE)
    assume p: "fl p \<noteq> Finite 0" and y: "scaled_change c p = Finite y"
      and h: "0 \<le> y \<or> y + 1 / 2 \<notin> \<int>"
    from h have "Math_round y = round_half_away_spec y" by (rule Math_round_eq_half_away)
    with p y show "calcChangeRate (Some c) (Some p)
          = Some (fl (of_int (round_half_away_spec y) / 100))"
      by (simp add: calcChangeRate_def)
  qed
  have g: "fl p \<noteq> Finite 0 \<and> (\<forall>y. scaled_change c p \<noteq> Finite y) \<longrightarrow>
        calcChangeRate (Some c) (Some p) = Some (scaled_change c p)"
    by (cases "scaled_change c p") (simp_all add: calcChangeRate_def infinity_def)
  have h: "calcChangeRate (Some 110) (Some 100) = Some (Finite 10)"
    by (simp add: calcChangeRate_def fl_examples scaled_change_110_100 Math_round_def)
  have i: "calcChangeRate (Some 95) (Some 100) = Some (Finite (- 5))"
    by (simp add: calcChangeRate_def fl_examples scaled_change_95_100 Math_round_def)
       (simp add: double_eval)
  from a b c d e f g h i show ?thesis by (intro conjI)
qed

text \<open>
  The theorem at current 31 and past 32, where the product is the tie -312.5 and the
  change is -3.12, and at current 110 and past 100, where the product is 1000 and both
  roundings agree.
\<close>

theorem calcChangeRate_rounds_half_up_witness:
  "fl 32 \<noteq> Finite 0
   \<and> scaled_change 31 32 = Finite (- 625 / 2)
   \<and> calcChangeRate (Some 31) (Some 32) = Some (fl (- 312 / 100))
   \<and> fl 100 \<noteq> Finite 0
   \<and> scaled_change 110 100 = Finite 1000
   \<and> (0::real) \<le> 1000
   \<and> calcChangeRate (Some 110) (Some 100) = Some (fl (of_int (round_half_away_spec 1000) / 100))"
proof -
  have p: "fl 32 \<noteq> Finite 0" by (simp add: fl_examples)
  note y = scaled_change_31_32
  from p y have py: "fl 32 \<noteq> Finite 0 \<and> scaled_change 31 32 = Finite (- 625 / 2)" ..
  have "calcChangeRate (Some 31) (Some 32) = Some (fl (of_int \<lfloor>(- 625 / 2 :: real) + 1 / 2\<rfloor> / 100))"
    by (rule calcChangeRate_rounds_half_up
          [of None None 32 31 "- 625 / 2", THEN conjunct2, THEN conjunct2, THEN conjunct2,
           THEN conjunct2, THEN conjunct1, THEN mp, OF py])
  then have a: "calcChangeRate (Some 31) (Some 32) = Some (fl (- 312 / 100))" by simp
  have q: "fl 100 \<noteq> Finite 0" by (simp add: fl_examples)
  note z = scaled_change_110_100
  have r: "(0::real) \<le> 1000" by simp
  from q z r have qz: "fl 100 \<noteq> Finite 0 \<and> scaled_change 110 100 = Finite 1000
      \<and> ((0::real) \<le> 1000 \<or> (1000::real) + 1 / 2 \<notin> \<int>)" by blast
  have b: "calcChangeRate (Some 110) (Some 100)
       = Some (fl (of_int (round_half_away_spec 1000) / 100))"
    by (rule calcChangeRate_rounds_half_up
          [of None None 100 110 1000, THEN conjunct2, THEN conjunct2, THEN conjunct2,
           THEN conjunct2, THEN conjunct2, THEN conjunct1, THEN mp, OF qz])
  from p y a q z r b show ?thesis by (intro conjI)
qed

text \<open>
  Claim C2 as stated fails on a negative tie. From 32 to 31 the change is -3.125 percent
  and the product is the tie -312.5, all steps being exact in doubles; the code returns
  -3.12, rounding half away from zero gives -313 and so -3.13, a different double.
\<close>

theorem calcChangeRate_half_away_counterexample:
  "scaled_change 31 32 = Finite (- 625 / 2)
   \<and> round_half_away_spec (- 625 / 2) = - 313
   \<and> calcChangeRate (Some 31) (Some 32) = Some (fl (- 312 / 100))
   \<and> fl (- 312 / 100) = Finite (- 3512807709348987 / 1125899906842624)
   \<and> fl (- 313 / 100) = Finite (- 3524066708417413 / 1125899906842624)
   \<and> calcChangeRate (Some 31) (Some 32) \<noteq> Some (fl (of_int (round_half_away_spec (- 625 / 2)) / 100))"
proof -
  note a = scaled_change_31_32
  have b: "round_half_away_spec (- 625 / 2) = - 313"
    by (simp add: round_half_away_spec_def)
  have c: "calcChangeRate (Some 31) (Some 32) = Some (fl (- 312 / 100))"
    by (simp add: calcChangeRate_def fl_examples scaled_change_31_32 Math_round_def)
  have d: "fl (- 312 / 100) = Finite (- 3512807709348987 / 1125899906842624)"
    by (simp add: double_eval)
  have e: "fl (- 313 / 100) = Finite (- 3524066708417413 / 1125899906842624)"
    by (simp add: double_eval)
  have "fl (of_int (round_half_away_spec (- 625 / 2)) / 100) = fl (- 313 / 100)"
    by (simp only: b) simp
  then have f: "calcChangeRate (Some 31) (Some 32)
      \<noteq> Some (fl (of_int (round_half_away_spec (- 625 / 2)) / 100))"
    by (simp only: c d e) simp
  from a b c d e f show ?thesis by (intro conjI)
qed

section \<open>Properties of findClosestPrice\<close>

lemma before_inv_step:
  assumes "before_inv ts cs t n st" "n < length ts"
  shows "before_inv ts cs t (Suc n) (before_step ts cs t n st)"
  using assms
  apply (cases st)
  apply (auto simp: before_inv_def before_step_def valid_obs_def lt_bestDiff_def Let_def less_Suc_eq
      split: option.splits)
  done

lemma before_inv_fold:
  "n \<le> length ts \<Longrightarrow> before_inv ts cs t n (fold (before_step ts cs t) [0..<n] (None, None))"
proof (induction n)
  case 0
  then show ?case by (simp add: before_inv_def)
next
  case (Suc n)
  then show ?case by (simp add: before_inv_step)
qed

lemma nearest_inv_step:
  assumes "nearest_inv ts cs t n st" "n < length ts"
  shows "nearest_inv ts cs t (Suc n) (nearest_step ts cs t n st)"
  using assms
  apply (cases st)
  apply (auto simp: nearest_inv_def nearest_step_def valid_obs_def lt_bestDiff_def Let_def less_Suc_eq
      split: option.splits)
  done

lemma nearest_inv_fold:
  "n \<le> length ts \<Longrightarrow> nearest_inv ts cs t n (fold (nearest_step ts cs t) [0..<n] (None, None))"
proof (induction n)
  case 0
  then show ?case by (simp add: nearest_inv_def)
next
  case (Suc n)
  then show ?case by (simp add: nearest_inv_step)
qed


text \<open>
  Claim C3. \<open>findClosestPrice\<close> returns \<open>null\<close> exactly when no observation is valid.
  When some valid observation is at or before the target, it returns the close of the
  valid observation with the smallest \<open>target - timestamp\<close> among those. Otherwise it
  returns the close of the valid observation nearest to the target in absolute distance.
  In both cases the chosen index is the lowest one that reaches the minimum.
\<close>

theorem findClosestPrice_nearest_match:
  "(findClosestPrice ts cs t = None \<longleftrightarrow> (\<forall>i. \<not> valid_obs ts cs i))
   \<and> ((\<exists>i. valid_obs ts cs i \<and> ts ! i \<le> t) \<longrightarrow>
        (\<exists>i. valid_obs ts cs i \<and> ts ! i \<le> t
           \<and> findClosestPrice ts cs t = close_at cs i
           \<and> (\<forall>j. valid_obs ts cs j \<and> ts ! j \<le> t \<longrightarrow> t - ts ! i \<le> t - ts ! j)
           \<and> (\<forall>j<i. valid_obs ts cs j \<and> ts ! j \<le> t \<longrightarrow> t - ts ! i < t - ts ! j)))
   \<and> ((\<exists>i. valid_obs ts cs i) \<and> \<not> (\<exists>i. valid_obs ts cs i \<and> ts ! i \<le> t) \<longrightarrow>
        (\<exists>i. valid_obs ts cs i
           \<and> findClosestPrice ts cs t = close_at cs i
           \<and> (\<forall>j. valid_obs ts cs j \<longrightarrow> \<bar>t - ts ! i\<bar> \<le> \<bar>t - ts ! j\<bar>)
           \<and> (\<forall>j<i. valid_obs ts cs j \<longrightarrow> \<bar>t - ts ! i\<bar> < \<bar>t - ts ! j\<bar>)))"
proof -
  define n where "n = length ts"
  define st1 where "st1 = fold (before_step ts cs t) [0..<n] (None, None)"
  define st2 where "st2 = fold (nearest_step ts cs t) [0..<n] (None, None)"
  have inv1: "before_inv ts cs t n st1"
    unfolding st1_def n_def by (rule before_inv_fold) simp
  have inv2: "nearest_inv ts cs t n st2"
    unfolding st2_def n_def by (rule nearest_inv_fold) simp
  have bound: "valid_obs ts cs i \<Longrightarrow> i < n" for i
    by (simp add: valid_obs_def n_def)
  show ?thesis
  proof (cases "fst st1")
    case (Some b)
    then have res: "findClosestPrice ts cs t = close_at cs b"
      by (simp add: findClosestPrice_def st1_def n_def Let_def)
    from Some inv1 have b: "valid_obs ts cs b" "ts ! b \<le> t"
      "\<forall>j<n. valid_obs ts cs j \<and> ts ! j \<le> t \<longrightarrow> t - ts ! b \<le> t - ts ! j"
      "\<forall>j<b. valid_obs ts cs j \<and> ts ! j \<le> t \<longrightarrow> t - ts ! b < t - ts ! j"
      by (simp_all add: before_inv_def)
    from b(1) have ne: "close_at cs b \<noteq> None" by (simp add: valid_obs_def)
    have c1: "findClosestPrice ts cs t = None \<longleftrightarrow> (\<forall>i. \<not> valid_obs ts cs i)"
      using res ne b(1) by auto
    have c2: "\<exists>i. valid_obs ts cs i \<and> ts ! i \<le> t
           \<and> findClosestPrice ts cs t = close_at cs i
           \<and> (\<forall>j. valid_obs ts cs j \<and> ts ! j \<le> t \<longrightarrow> t - ts ! i \<le> t - ts ! j)
           \<and> (\<forall>j<i. valid_obs ts cs j \<and> ts ! j \<le> t \<longrightarrow> t - ts ! i < t - ts ! j)"
      using res b bound by blast
    from c1 c2 b(1,2) show ?thesis by blast
  next
    case None
    with inv1 have none_before: "\<forall>i<n. \<not> (valid_obs ts cs i \<and> ts ! i \<le> t)" and d: "snd st1 = None"
      by (simp_all add: before_inv_def)
    from None d have st1: "st1 = (None, None)" by (cases st1) simp
    have res: "findClosestPrice ts cs t = (case fst st2 of None \<Rightarrow> None | Some i \<Rightarrow> close_at cs i)"
      using st1 by (simp add: findClosestPrice_def st1_def [symmetric] st2_def [symmetric] n_def [symmetric] Let_def)
    have nb: "\<not> (\<exists>i. valid_obs ts cs i \<and> ts ! i \<le> t)"
      using none_before bound by blast
    show ?thesis
    proof (cases "fst st2")
      case None2: None
      with inv2 have "\<forall>i<n. \<not> valid_obs ts cs i" by (simp add: nearest_inv_def)
      then have nov: "\<forall>i. \<not> valid_obs ts cs i" using bound by blast
      from None2 res have "findClosestPrice ts cs t = None" by simp
      with nov show ?thesis by simp
    next
      case (Some b)
      with inv2 have b: "valid_obs ts cs b"
        "\<forall>j<n. valid_obs ts cs j \<longrightarrow> \<bar>t - ts ! b\<bar> \<le> \<bar>t - ts ! j\<bar>"
        "\<forall>j<b. valid_obs ts cs j \<longrightarrow> \<bar>t - ts ! b\<bar> < \<bar>t - ts ! j\<bar>"
        by (simp_all add: nearest_inv_def)
      from Some res have r: "findClosestPrice ts cs t = close_at cs b" by simp
      from b(1) have ne: "close_at cs b \<noteq> None" by (simp add: valid_obs_def)
      have c1: "findClosestPrice ts cs t = None \<longleftrightarrow> (\<forall>i. \<not> valid_obs ts cs i)"
        using r ne b(1) by auto
      have c3: "\<exists>i. valid_obs ts cs i
           \<and> findClosestPrice ts cs t = close_at cs i
           \<and> (\<forall>j. valid_obs ts cs j \<longrightarrow> \<bar>t - ts ! i\<bar> \<le> \<bar>t - ts ! j\<bar>)
           \<and> (\<forall>j<i. valid_obs ts cs j \<longrightarrow> \<bar>t - ts ! i\<bar> < \<bar>t - ts ! j\<bar>)"
        using r b bound by blast
      from c1 c3 nb show ?thesis by blast
    qed
  qed
qed



text \<open>
  The theorem on the example series with target 250, which has observations before it,
  and with target 50, which has none.
\<close>

theorem findClosestPrice_nearest_match_witness:
  "(\<exists>i. valid_obs series_ts series_closes i \<and> series_ts ! i \<le> 250)
   \<and> (\<exists>i. valid_obs series_ts series_closes i \<and> series_ts ! i \<le> 250
         \<and> findClosestPrice series_ts series_closes 250 = close_at series_closes i
         \<and> (\<forall>j. valid_obs series_ts series_closes j \<and> series_ts ! j \<le> 250
                \<longrightarrow> 250 - series_ts ! i \<le> 250 - series_ts ! j)
         \<and> (\<forall>j<i. valid_obs series_ts series_closes j \<and> series_ts ! j \<le> 250
                \<longrightarrow> 250 - series_ts ! i < 250 - series_ts ! j))
   \<and> (\<exists>i. valid_obs series_ts series_closes i)
   \<and> \<not> (\<exists>i. valid_obs series_ts series_closes i \<and> series_ts ! i \<le> 50)
   \<and> (\<exists>i. valid_obs series_ts series_closes i
         \<and> findClosestPrice series_ts series_closes 50 = close_at series_closes i
         \<and> (\<forall>j. valid_obs series_ts series_closes j
                \<longrightarrow> \<bar>50 - series_ts ! i\<bar> \<le> \<bar>50 - series_ts ! j\<bar>)
         \<and> (\<forall>j<i. valid_obs series_ts series_closes j
                \<longrightarrow> \<bar>50 - series_ts ! i\<bar> < \<bar>50 - series_ts ! j\<bar>))"
proof -
  have "valid_obs series_ts series_closes 1 \<and> series_ts ! 1 \<le> 250"
    by (simp add: series_valid) (simp add: series_ts_def)
  then have before: "\<exists>i. valid_obs series_ts series_closes i \<and> series_ts ! i \<le> 250"
    by (rule exI)
  have "valid_obs series_ts series_closes 0" by (simp add: series_valid)
  then have some: "\<exists>i. valid_obs series_ts series_closes i" by (rule exI)
  have none: "\<not> (\<exists>i. valid_obs series_ts series_closes i \<and> series_ts ! i \<le> 50)"
  proof
    assume "\<exists>i. valid_obs series_ts series_closes i \<and> series_ts ! i \<le> 50"
    then obtain i where "i < 3" and le: "series_ts ! i \<le> 50"
      by (auto simp: series_valid)
    then have "i = 0 \<or> i = 1 \<or> i = 2" by (intro series_index)
    with le show False by (auto simp: series_ts_def)
  qed
  note at_250 = findClosestPrice_nearest_match [of series_ts series_closes 250]
  note at_50 = findClosestPrice_nearest_match [of series_ts series_closes 50]
  note a = at_250 [THEN conjunct2, THEN conjunct1, THEN mp, OF before]
  note b = at_50 [THEN conjunct2, THEN conjunct2, THEN mp, OF conjI, OF some none]
  from before a some none b show ?thesis by (intro conjI)
qed


section \<open>Properties of the trading-day series\<close>

lemma collect_tradingDays_on:
  "\<forall>i\<in>set xs. i < length T \<Longrightarrow>
   concat (map (\<lambda>i. case close_at C i of None \<Rightarrow> [] | Some c \<Rightarrow> [TradingDay (T ! i) c]) xs)
     = map (\<lambda>i. TradingDay (T ! i) (the (close_at C i))) (filter (valid_obs T C) xs)"
  by (induction xs) (auto simp: valid_obs_def split: option.splits)

lemma collect_tradingDays_eq:
  "collect_tradingDays T C
     = map (\<lambda>i. TradingDay (T ! i) (the (close_at C i))) (filter (valid_obs T C) [0..<length T])"
  unfolding collect_tradingDays_def by (rule collect_tradingDays_on) simp

lemma sorted_tradingDays_of: "sorted (map td_ts (tradingDays_of T C))"
  by (simp add: tradingDays_of_def)

text \<open>
  Claim C7, as the code has it. The series built from the two arrays is ordered by
  non-decreasing timestamp and holds exactly the observations with a present close, each
  as often as it occurs: nothing is dropped, so a repeated timestamp stays repeated, and
  observations with the same timestamp keep the order of the arrays.
\<close>

theorem tradingDays_of_sorted_keeps_all:
  "sorted (map td_ts (tradingDays_of T C))
   \<and> mset (tradingDays_of T C)
       = mset (map (\<lambda>i. TradingDay (T ! i) (the (close_at C i))) (filter (valid_obs T C) [0..<length T]))
   \<and> (\<forall>k. filter (\<lambda>d. td_ts d = k) (tradingDays_of T C)
          = filter (\<lambda>d. td_ts d = k)
              (map (\<lambda>i. TradingDay (T ! i) (the (close_at C i))) (filter (valid_obs T C) [0..<length T])))
   \<and> length (tradingDays_of T C) = length (filter (valid_obs T C) [0..<length T])"
proof -
  have a: "sorted (map td_ts (tradingDays_of T C))" by (rule sorted_tradingDays_of)
  have b: "mset (tradingDays_of T C)
       = mset (map (\<lambda>i. TradingDay (T ! i) (the (close_at C i))) (filter (valid_obs T C) [0..<length T]))"
    by (simp add: tradingDays_of_def collect_tradingDays_eq)
  have c: "filter (\<lambda>d. td_ts d = k) (tradingDays_of T C)
          = filter (\<lambda>d. td_ts d = k)
              (map (\<lambda>i. TradingDay (T ! i) (the (close_at C i))) (filter (valid_obs T C) [0..<length T]))" for k
    unfolding tradingDays_of_def collect_tradingDays_eq by (rule sort_key_stable)
  have d: "length (tradingDays_of T C) = length (filter (valid_obs T C) [0..<length T])"
    by (simp add: tradingDays_of_def collect_tradingDays_eq)
  from a b c d show ?thesis by blast
qed

text \<open>
  Claim C7 as stated fails when the provider repeats a timestamp: both observations are
  kept.
\<close>

theorem tradingDays_of_duplicate_counterexample:
  "tradingDays_of [100, 100] [Some 1, Some 2] = [TradingDay 100 1, TradingDay 100 2]
   \<and> \<not> distinct (map td_ts (tradingDays_of [100, 100] [Some 1, Some 2]))"
  by (simp add: tradingDays_of_def collect_tradingDays_def close_at_def upt_rec)

section \<open>Properties of fetchClosingPrice\<close>

lemma scan_back_Some:
  "scan_back tds t n = Some i \<Longrightarrow>
     i < n \<and> td_ts (tds ! i) \<le> t \<and> (\<forall>j. i < j \<and> j < n \<longrightarrow> t < td_ts (tds ! j))"
proof (induction n)
  case 0
  then show ?case by simp
next
  case (Suc n)
  show ?case
  proof (cases "td_ts (tds ! n) \<le> t")
    case True
    with Suc.prems have "i = n" by simp
    with True show ?thesis by auto
  next
    case False
    with Suc.prems have "scan_back tds t n = Some i" by simp
    from Suc.IH [OF this] False show ?thesis
      by (auto simp: less_Suc_eq)
  qed
qed

lemma scan_back_None:
  "scan_back tds t n = None \<Longrightarrow> \<forall>j<n. t < td_ts (tds ! j)"
  by (induction n) (auto simp: less_Suc_eq split: if_splits)

lemma find_currentIdx_anchor:
  assumes "tds \<noteq> []"
  shows "find_currentIdx tds t < length tds"
    and "(\<exists>j<length tds. td_ts (tds ! j) \<le> t) \<Longrightarrow>
           td_ts (tds ! find_currentIdx tds t) \<le> t
           \<and> (\<forall>j<length tds. find_currentIdx tds t < j \<longrightarrow> t < td_ts (tds ! j))"
    and "\<not> (\<exists>j<length tds. td_ts (tds ! j) \<le> t) \<Longrightarrow> find_currentIdx tds t = 0"
proof -
  show "find_currentIdx tds t < length tds"
    using assms scan_back_Some [of tds t "length tds"]
    by (auto simp: find_currentIdx_def split: option.splits)
  show "td_ts (tds ! find_currentIdx tds t) \<le> t
           \<and> (\<forall>j<length tds. find_currentIdx tds t < j \<longrightarrow> t < td_ts (tds ! j))"
    if "\<exists>j<length tds. td_ts (tds ! j) \<le> t"
  proof (cases "scan_back tds t (length tds)")
    case None
    from scan_back_None [OF this] that show ?thesis by force
  next
    case (Some i)
    from scan_back_Some [OF this] Some show ?thesis
      by (simp add: find_currentIdx_def)
  qed
  show "find_currentIdx tds t = 0" if "\<not> (\<exists>j<length tds. td_ts (tds ! j) \<le> t)"
  proof (cases "scan_back tds t (length tds)")
    case None
    then show ?thesis by (simp add: find_currentIdx_def)
  next
    case (Some i)
    from scan_back_Some [OF this] that show ?thesis by blast
  qed
qed


lemma fetchClosingPrice_success:
  assumes "truthy tk" "tradingDays_of T C \<noteq> []"
  shows "fetchClosingPrice off tk target (Ok (Result (ChartResult (Some T) (Some C) # rest)))
           = resolve_series off T C (tradingDays_of T C) target"
proof -
  from assms(2) have "collect_tradingDays T C \<noteq> []"
    by (auto simp: tradingDays_of_def)
  then have "T \<noteq> []" by (auto simp: collect_tradingDays_def)
  moreover have "C \<noteq> []"
  proof
    assume "C = []"
    then have "collect_tradingDays T C = []" by (simp add: collect_tradingDays_def close_at_def)
    with \<open>collect_tradingDays T C \<noteq> []\<close> show False by simp
  qed
  ultimately show ?thesis using assms
    by (simp add: fetchClosingPrice_def Let_def)
qed




lemma calcChangeRate_100: "calcChangeRate (Some 20) (Some 10) = Some (Finite 100)"
  by (simp add: calcChangeRate_def scaled_change_def fl_examples) (simp add: double_eval)

lemma resolve_series_change1d:
  "change1d (resolve_series off T C tds target)
     = (if find_currentIdx tds target = 0 then None
        else calcChangeRate (Some (td_close (tds ! find_currentIdx tds target)))
               (Some (td_close (tds ! (find_currentIdx tds target - 1)))))"
  by (simp add: resolve_series_def Let_def calcChangeRate_def)

text \<open>
  Claim C4. \<open>change1d\<close> compares the anchor's close with the close of the element just
  before the anchor in the series, whatever its timestamp, and is \<open>null\<close> when the anchor
  is the first element.
\<close>

theorem change1d_from_previous_trading_day:
  assumes "truthy tk" and "tradingDays_of T C \<noteq> []"
  shows "find_currentIdx (tradingDays_of T C) target < length (tradingDays_of T C)
    \<and> change1d (fetchClosingPrice off tk target (Ok (Result (ChartResult (Some T) (Some C) # rest))))
       = (if find_currentIdx (tradingDays_of T C) target = 0 then None
          else calcChangeRate
                 (Some (td_close (tradingDays_of T C ! find_currentIdx (tradingDays_of T C) target)))
                 (Some (td_close (tradingDays_of T C ! (find_currentIdx (tradingDays_of T C) target - 1)))))"
proof -
  have "find_currentIdx (tradingDays_of T C) target < length (tradingDays_of T C)"
    using assms(2) by (rule find_currentIdx_anchor(1))
  moreover have "fetchClosingPrice off tk target (Ok (Result (ChartResult (Some T) (Some C) # rest)))
           = resolve_series off T C (tradingDays_of T C) target"
    using assms by (rule fetchClosingPrice_success)
  ultimately show ?thesis by (simp only: resolve_series_change1d)
qed

text \<open>
  The theorem on the example series: target 250 has the anchor at index 1 and a change of
  100 percent, target 50 has the anchor at index 0 and no change.
\<close>

theorem change1d_from_previous_trading_day_witness:
  "truthy (Some (ascii ''1301.T''))
   \<and> tradingDays_of series_ts series_closes \<noteq> []
   \<and> find_currentIdx (tradingDays_of series_ts series_closes) 250 = 1
   \<and> change1d (fetchClosingPrice tokyo (Some (ascii ''1301.T'')) 250 series_response) = Some (Finite 100)
   \<and> find_currentIdx (tradingDays_of series_ts series_closes) 50 = 0
   \<and> change1d (fetchClosingPrice tokyo (Some (ascii ''1301.T'')) 50 series_response) = None"
proof -
  note h1 = truthy_1301
  have h2: "tradingDays_of series_ts series_closes \<noteq> []" by (simp add: series_tradingDays)
  have i1: "find_currentIdx (tradingDays_of series_ts series_closes) 250 = 1"
    by (simp add: series_tradingDays find_currentIdx_def numeral_3_eq_3)
  have i2: "find_currentIdx (tradingDays_of series_ts series_closes) 50 = 0"
    by (simp add: series_tradingDays find_currentIdx_def numeral_3_eq_3)
  have a: "change1d (fetchClosingPrice tokyo (Some (ascii ''1301.T'')) 250 series_response) = Some (Finite 100)"
    using change1d_from_previous_trading_day [OF h1 h2, of 250 tokyo "[]"]
    by (simp add: i1 series_response_def)
      (simp add: series_tradingDays calcChangeRate_100)
  have b: "change1d (fetchClosingPrice tokyo (Some (ascii ''1301.T'')) 50 series_response) = None"
    using change1d_from_previous_trading_day [OF h1 h2, of 50 tokyo "[]"]
    by (simp add: i2 series_response_def)
  from h1 h2 i1 a i2 b show ?thesis by (intro conjI)
qed

lemma fetchClosingPrice_cases:
  "(\<exists>m. fetchClosingPrice off tk target resp = nullResult\<lparr>error := Some m\<rparr>)
   \<or> (\<exists>T C tds. fetchClosingPrice off tk target resp = resolve_series off T C tds target)"
  by (auto simp: fetchClosingPrice_def Let_def split: response.splits chart_data.splits list.splits)

text \<open>
  Claim C6. \<open>fetchClosingPrice\<close> returns a result for every ticker, target and response,
  exceptions included. In it \<open>price\<close> is \<open>null\<close> exactly when \<open>error\<close> is not, and
  a result with an error has no price, no date and no change rate.
\<close>

theorem fetchClosingPrice_price_iff_no_error:
  "(price (fetchClosingPrice off tk target resp) = None
      \<longleftrightarrow> error (fetchClosingPrice off tk target resp) \<noteq> None)
   \<and> (error (fetchClosingPrice off tk target resp) \<noteq> None \<longrightarrow>
        price (fetchClosingPrice off tk target resp) = None
        \<and> change1d (fetchClosingPrice off tk target resp) = None
        \<and> change7d (fetchClosingPrice off tk target resp) = None
        \<and> change14d (fetchClosingPrice off tk target resp) = None
        \<and> change30d (fetchClosingPrice off tk target resp) = None
        \<and> change180d (fetchClosingPrice off tk target resp) = None
        \<and> actualDate (fetchClosingPrice off tk target resp) = None)"
proof -
  from fetchClosingPrice_cases [of off tk target resp] show ?thesis
  proof (elim disjE exE)
    fix m
    assume "fetchClosingPrice off tk target resp = nullResult\<lparr>error := Some m\<rparr>"
    then show ?thesis by (simp add: nullResult_def)
  next
    fix T C tds
    assume "fetchClosingPrice off tk target resp = resolve_series off T C tds target"
    then show ?thesis by (simp add: resolve_series_def Let_def)
  qed
qed

text \<open>
  The theorem on a response with status 500.
\<close>

theorem fetchClosingPrice_price_iff_no_error_witness:
  "error (fetchClosingPrice tokyo (Some (ascii ''1301.T'')) 250 (NotOk 500)) = Some (ascii ''HTTP 500'')
   \<and> price (fetchClosingPrice tokyo (Some (ascii ''1301.T'')) 250 (NotOk 500)) = None
   \<and> change1d (fetchClosingPrice tokyo (Some (ascii ''1301.T'')) 250 (NotOk 500)) = None
   \<and> change7d (fetchClosingPrice tokyo (Some (ascii ''1301.T'')) 250 (NotOk 500)) = None
   \<and> change14d (fetchClosingPrice tokyo (Some (ascii ''1301.T'')) 250 (NotOk 500)) = None
   \<and> change30d (fetchClosingPrice tokyo (Some (ascii ''1301.T'')) 250 (NotOk 500)) = None
   \<and> change180d (fetchClosingPrice tokyo (Some (ascii ''1301.T'')) 250 (NotOk 500)) = None"
proof -
  have e: "error (fetchClosingPrice tokyo (Some (ascii ''1301.T'')) 250 (NotOk 500))
      = Some (ascii ''HTTP 500'')"
    by (simp add: fetchClosingPrice_def truthy_def ascii_def nullResult_def String_int_def digits.simps)
  then have "error (fetchClosingPrice tokyo (Some (ascii ''1301.T'')) 250 (NotOk 500)) \<noteq> None"
    by simp
  with fetchClosingPrice_price_iff_no_error [of tokyo "Some (ascii ''1301.T'')" 250 "NotOk 500"] e
  show ?thesis by blast
qed


section \<open>Properties of getTargetDate\<close>

lemma yyyymmdd_local:
  "LocalTime off t = L \<Longrightarrow>
   String_int (getFullYear off t) @ padStart 2 48 (String_int (getMonth off t + 1))
      @ padStart 2 48 (String_int (getDate off t)) = yyyymmdd (Day L)"
  by (simp add: getFullYear_def getMonth_def getDate_def yyyymmdd_def split: prod.splits)

lemma minutes_of_day:
  fixes L :: int
  shows "(L mod 86400000) div 3600000 * 60 + (L mod 3600000) div 60000 = (L mod 86400000) div 60000"
proof -
  define r where "r = L mod 86400000"
  define q where "q = r div 60000"
  have m: "L mod 3600000 = r mod 3600000"
    unfolding r_def by (simp add: mod_mod_cancel)
  have h: "r div 3600000 = q div 60"
    using zdiv_zmult2_eq [of r 60000 60] by (simp add: q_def)
  have "r mod (60000 * 60) = 60000 * (r div 60000 mod 60) + r mod 60000"
    by (rule zmod_zmult2_eq) simp
  then have "(r mod 3600000) div 60000 = (60000 * (q mod 60) + r mod 60000) div 60000"
    by (simp add: q_def)
  also have "\<dots> = q mod 60"
    by simp
  finally have "r div 3600000 * 60 + (r mod 3600000) div 60000 = q div 60 * 60 + q mod 60"
    using h by simp
  also have "\<dots> = q" by simp
  finally show ?thesis by (simp add: m r_def q_def)
qed

lemma in_window_iff:
  fixes L :: int
  shows "540 \<le> (L mod 86400000) div 60000 \<and> (L mod 86400000) div 60000 < 900
     \<longleftrightarrow> 9 * 3600000 \<le> L mod 86400000 \<and> L mod 86400000 < 15 * 3600000"
proof -
  define r where "r = L mod 86400000"
  define q where "q = r div 60000"
  define s where "s = r mod 60000"
  have "r = 60000 * q + s" by (simp add: q_def s_def)
  moreover have "0 \<le> s" "s < 60000" by (simp_all add: s_def)
  ultimately have "540 \<le> q \<and> q < 900 \<longleftrightarrow> 32400000 \<le> r \<and> r < 54000000"
    by linarith
  then show ?thesis by (simp add: r_def q_def)
qed

lemma getTargetDate_unfold:
  "getTargetDate off now =
     (if 540 \<le> getHours off (now + off now * 60000 + 32400000) * 60
                  + getMinutes off (now + off now * 60000 + 32400000)
         \<and> getHours off (now + off now * 60000 + 32400000) * 60
                  + getMinutes off (now + off now * 60000 + 32400000) < 900
      then String_int (getFullYear off (now + off now * 60000 + 32400000 - 86400000))
          @ padStart 2 48 (String_int (getMonth off (now + off now * 60000 + 32400000 - 86400000) + 1))
          @ padStart 2 48 (String_int (getDate off (now + off now * 60000 + 32400000 - 86400000)))
      else String_int (getFullYear off (now + off now * 60000 + 32400000))
          @ padStart 2 48 (String_int (getMonth off (now + off now * 60000 + 32400000) + 1))
          @ padStart 2 48 (String_int (getDate off (now + off now * 60000 + 32400000))))"
proof -
  have e1: "now + off now * 60 * 1000 + 9 * 60 * 60 * 1000 = now + off now * 60000 + 32400000"
    by simp
  have e2: "x - 24 * 60 * 60 * 1000 = x - 86400000" for x :: int
    by simp
  show ?thesis
  proof (cases "540 \<le> getHours off (now + off now * 60000 + 32400000) * 60
                  + getMinutes off (now + off now * 60000 + 32400000)
         \<and> getHours off (now + off now * 60000 + 32400000) * 60
                  + getMinutes off (now + off now * 60000 + 32400000) < 900")
    case True
    then show ?thesis
      unfolding getTargetDate_def Let_def e1 e2 by (simp only: if_True simp_thms)
  next
    case False
    then show ?thesis
      unfolding getTargetDate_def Let_def e1 e2 by (simp only: if_False simp_thms)
  qed
qed

text \<open>
  On a host whose offset is the same at the current instant and at the two shifted dates
  the code builds (any host without a daylight-saving switch nearby, Tokyo and UTC among
  them), \<open>getTargetDate\<close> is the rule of the specification.
\<close>

lemma getTargetDate_stable_offset:
  assumes "off (now + off now * 60000 + 32400000) = off now"
    and "off (now + off now * 60000 + 32400000 - 86400000) = off now"
  shows "getTargetDate off now = reference_date_spec now"
proof -
  define jstDate where "jstDate = now + off now * 60000 + 32400000"
  define L where "L = now + 32400000"
  have loc: "LocalTime off jstDate = L"
    using assms(1) by (simp add: LocalTime_def jstDate_def L_def)
  have loc': "LocalTime off (jstDate - 86400000) = L - 86400000"
    using assms(2) by (simp add: LocalTime_def jstDate_def L_def)
  have cm: "getHours off jstDate * 60 + getMinutes off jstDate = (L mod 86400000) div 60000"
    by (simp add: getHours_def getMinutes_def loc minutes_of_day)
  have day: "Day (L - 86400000) = Day L - 1"
    by (simp add: Day_def)
  have weq: "(540 \<le> getHours off jstDate * 60 + getMinutes off jstDate
        \<and> getHours off jstDate * 60 + getMinutes off jstDate < 900)
     = (9 * 3600000 \<le> L mod 86400000 \<and> L mod 86400000 < 15 * 3600000)"
    by (simp only: cm in_window_iff)
  show ?thesis
  proof (cases "540 \<le> getHours off jstDate * 60 + getMinutes off jstDate
        \<and> getHours off jstDate * 60 + getMinutes off jstDate < 900")
    case True
    have "getTargetDate off now
       = String_int (getFullYear off (jstDate - 86400000))
          @ padStart 2 48 (String_int (getMonth off (jstDate - 86400000) + 1))
          @ padStart 2 48 (String_int (getDate off (jstDate - 86400000)))"
      unfolding getTargetDate_unfold jstDate_def [symmetric] using True by (simp only: if_True simp_thms)
    also have "\<dots> = yyyymmdd (Day (L - 86400000))"
      using loc' by (rule yyyymmdd_local)
    finally show ?thesis using True [unfolded weq]
      by (auto simp add: reference_date_spec_def Let_def L_def [symmetric] day)
  next
    case False
    have "getTargetDate off now
       = String_int (getFullYear off jstDate)
          @ padStart 2 48 (String_int (getMonth off jstDate + 1))
          @ padStart 2 48 (String_int (getDate off jstDate))"
      unfolding getTargetDate_unfold jstDate_def [symmetric] using False by (simp only: if_False simp_thms)
    also have "\<dots> = yyyymmdd (Day L)"
      using loc by (rule yyyymmdd_local)
    finally show ?thesis using False [unfolded weq]
      by (auto simp add: reference_date_spec_def Let_def L_def [symmetric])
  qed
qed

lemma getTargetDate_fixed_offset: "getTargetDate (\<lambda>t. c) now = reference_date_spec now"
  by (rule getTargetDate_stable_offset) simp_all

text \<open>
  On a host in Tokyo, for every day \<open>D\<close>: at 10:30 and at 09:00 local time the result is
  the day before, at 16:00, 15:00 and 08:59 it is the day itself.
\<close>

lemma getTargetDate_tokyo: "getTargetDate tokyo now = reference_date_spec now"
  by (rule getTargetDate_stable_offset) (simp_all add: tokyo_def)

lemma getTargetDate_tokyo_examples:
  "getTargetDate tokyo (D * 86400000 + (10 * 3600000 + 30 * 60000) - 9 * 3600000) = yyyymmdd (D - 1)"
  "getTargetDate tokyo (D * 86400000 + 16 * 3600000 - 9 * 3600000) = yyyymmdd D"
  "getTargetDate tokyo (D * 86400000 + (8 * 3600000 + 59 * 60000) - 9 * 3600000) = yyyymmdd D"
  "getTargetDate tokyo (D * 86400000 + 9 * 3600000 - 9 * 3600000) = yyyymmdd (D - 1)"
  "getTargetDate tokyo (D * 86400000 + 15 * 3600000 - 9 * 3600000) = yyyymmdd D"
  by (simp_all add: getTargetDate_tokyo reference_date_spec_def Day_def)


lemma String_int_2024: "String_int 2024 = ascii ''2024''"
  by (simp add: String_int_def ascii_def digits.simps)

lemma pad_3: "padStart 2 48 (String_int 3) = ascii ''03''"
  by (simp add: String_int_def ascii_def digits.simps padStart_def)

lemma pad_9: "padStart 2 48 (String_int 9) = ascii ''09''"
  by (simp add: String_int_def ascii_def digits.simps padStart_def)

lemma pad_10: "padStart 2 48 (String_int 10) = ascii ''10''"
  by (simp add: String_int_def ascii_def digits.simps padStart_def)

lemma civil_19791: "civil_from_days 19791 = (2024, 3, 9)"
  unfolding civil_from_days_def Let_def by simp

lemma civil_19792: "civil_from_days 19792 = (2024, 3, 10)"
  unfolding civil_from_days_def Let_def by simp

text \<open>
  Claim C5 at 2024-03-09 23:30 UTC on a host in New York. In UTC+9 it is 08:30 on
  2024-03-10, outside the window, so the rule gives 20240310. The code reads the shifted
  date with the host's summer-time offset, sees 09:30 and returns 20240309.
\<close>

theorem getTargetDate_daylight_saving_host:
  "getTargetDate new_york_2024 1710027000000 = ascii ''20240309''
   \<and> reference_date_spec 1710027000000 = ascii ''20240310''
   \<and> (1710027000000 + 9 * 3600000) mod 86400000 = (8 * 3600000 + 30 * 60000 :: int)"
proof -
  have jst: "1710027000000 + new_york_2024 1710027000000 * 60000 + 32400000 = (1710077400000 :: int)"
    by (simp add: new_york_2024_def)
  have h: "getHours new_york_2024 1710077400000 = 9"
    by (simp add: getHours_def LocalTime_def new_york_2024_def)
  have m: "getMinutes new_york_2024 1710077400000 = 30"
    by (simp add: getMinutes_def LocalTime_def new_york_2024_def)
  have d: "Day (LocalTime new_york_2024 (1710077400000 - 86400000)) = 19791"
    by (simp add: Day_def LocalTime_def new_york_2024_def)
  have "getTargetDate new_york_2024 1710027000000
      = String_int (getFullYear new_york_2024 (1710077400000 - 86400000))
          @ padStart 2 48 (String_int (getMonth new_york_2024 (1710077400000 - 86400000) + 1))
          @ padStart 2 48 (String_int (getDate new_york_2024 (1710077400000 - 86400000)))"
    unfolding getTargetDate_unfold jst by (simp only: h m) simp
  also have "\<dots> = ascii ''20240309''"
    unfolding getFullYear_def getMonth_def getDate_def d civil_19791
    by (simp add: String_int_2024 pad_3 pad_9) (simp add: ascii_def)
  finally have a: "getTargetDate new_york_2024 1710027000000 = ascii ''20240309''" .
  have "Day (1710027000000 + 9 * 3600000) = 19792" by (simp add: Day_def)
  then have b: "reference_date_spec 1710027000000 = ascii ''20240310''"
    by (simp add: reference_date_spec_def yyyymmdd_def civil_19792 String_int_2024 pad_3 pad_10)
       (simp add: ascii_def)
  have c: "(1710027000000 + 9 * 3600000) mod 86400000 = (8 * 3600000 + 30 * 60000 :: int)"
    by simp
  from a b c show ?thesis by blast
qed

section \<open>Properties of getUniqueStocks\<close>

lemma dropWhile_rev_trim: "dropWhile is_js_space (rev (trim s)) = rev (trim s)"
  by (simp add: trim_def dropWhile_idem)

lemma dropWhile_trim: "dropWhile is_js_space (trim s) = trim s"
proof -
  define u where "u = dropWhile is_js_space s"
  have t: "trim s = rev (dropWhile is_js_space (rev u))" by (simp add: trim_def u_def)
  have "rev (takeWhile is_js_space (rev u) @ dropWhile is_js_space (rev u))
          = rev (dropWhile is_js_space (rev u)) @ rev (takeWhile is_js_space (rev u))"
    by (rule rev_append)
  then have u: "u = trim s @ rev (takeWhile is_js_space (rev u))"
    by (simp only: takeWhile_dropWhile_id rev_rev_ident t)
  show ?thesis
  proof (cases "trim s")
    case Nil
    then show ?thesis by simp
  next
    case (Cons a as)
    from u have "u = a # (as @ rev (takeWhile is_js_space (rev u)))" by (simp add: Cons)
    then have "u \<noteq> []" and "hd u = a" by (metis list.distinct(1), metis list.sel(1))
    moreover have "u \<noteq> [] \<Longrightarrow> \<not> is_js_space (hd u)"
      unfolding u_def by (rule hd_dropWhile)
    ultimately have "\<not> is_js_space a" by blast
    with Cons show ?thesis by simp
  qed
qed

lemma trim_idem: "trim (trim s) = trim s"
proof -
  have "trim (trim s) = rev (dropWhile is_js_space (rev (dropWhile is_js_space (trim s))))"
    by (simp add: trim_def)
  also have "\<dots> = rev (dropWhile is_js_space (rev (trim s)))" by (simp only: dropWhile_trim)
  also have "\<dots> = rev (rev (trim s))" by (simp only: dropWhile_rev_trim)
  finally show ?thesis by simp
qed

lemma toTicker_trimmed:
  "toTicker (trim x) = (if accepted (trim x) then Some (take 4 (trim x) @ ascii ''.T'') else None)"
  by (auto simp: toTicker_def trim_idem Let_def accepted_def test_alnum_def)

lemma row_step_eq:
  "row_step str row seen =
     (case row_code str row of
        None \<Rightarrow> seen
      | Some k \<Rightarrow>
          if accepted k \<and> k \<notin> fst ` set seen
          then seen @ [(k, \<lparr>ticker = Some (take 4 k @ ascii ''.T''), rawCode = k, name = row_name str row\<rparr>)]
          else seen)"
proof (cases "length row \<le> COL_CODE")
  case True
  then show ?thesis by (simp add: row_step_def row_code_def)
next
  case False
  define k where "k = trim (String_cell str (row ! COL_CODE))"
  have rc: "row_code str row = Some k" using False by (simp add: row_code_def k_def)
  have tt: "toTicker k = (if accepted k then Some (take 4 k @ ascii ''.T'') else None)"
    unfolding k_def by (rule toTicker_trimmed)
  have e: "k = [] \<Longrightarrow> \<not> accepted k" by (simp add: accepted_def)
  show ?thesis
    using False e
    by (auto simp: row_step_def rc k_def [symmetric] tt Let_def truthy_def ascii_def)
qed


lemma seen_inv_keep:
  assumes inv: "seen_inv str rows seen"
    and skip: "\<And>k. row_code str row = Some k \<Longrightarrow> accepted k \<Longrightarrow> k \<in> fst ` set seen"
  shows "seen_inv str (rows @ [row]) seen"
proof -
  from inv have d: "distinct (map fst seen)" by (simp add: seen_inv_def)
  have b: "rawCode s = k \<and> accepted k \<and> ticker s = Some (take 4 k @ ascii ''.T'')
            \<and> (\<exists>i<length (rows @ [row]). row_code str ((rows @ [row]) ! i) = Some k
                  \<and> (\<forall>j<i. row_code str ((rows @ [row]) ! j) \<noteq> Some k)
                  \<and> name s = row_name str ((rows @ [row]) ! i))"
    if "(k, s) \<in> set seen" for k s
  proof -
    from inv that obtain i where i: "rawCode s = k" "accepted k"
      "ticker s = Some (take 4 k @ ascii ''.T'')" "i < length rows" "row_code str (rows ! i) = Some k"
      "\<forall>j<i. row_code str (rows ! j) \<noteq> Some k" "name s = row_name str (rows ! i)"
      unfolding seen_inv_def by fast
    from i(4) have "i < length (rows @ [row])" by simp
    moreover from i(4,5) have "row_code str ((rows @ [row]) ! i) = Some k" by (simp add: nth_append)
    moreover from i(4,6) have "\<forall>j<i. row_code str ((rows @ [row]) ! j) \<noteq> Some k" by (simp add: nth_append)
    moreover from i(4,7) have "name s = row_name str ((rows @ [row]) ! i)" by (simp add: nth_append)
    ultimately show ?thesis using i(1,2,3) by blast
  qed
  have c: "k \<in> fst ` set seen"
    if "i < length (rows @ [row])" "row_code str ((rows @ [row]) ! i) = Some k" "accepted k" for i k
  proof (cases "i < length rows")
    case True
    with that(2) have "row_code str (rows ! i) = Some k" by (simp add: nth_append)
    with inv True that(3) show ?thesis unfolding seen_inv_def by blast
  next
    case False
    with that(1) have "i = length rows" by simp
    with that(2) have "row_code str row = Some k" by simp
    then show ?thesis using that(3) by (rule skip)
  qed
  from d b c show ?thesis unfolding seen_inv_def by blast
qed

lemma seen_inv_add:
  assumes inv: "seen_inv str rows seen"
    and rc: "row_code str row = Some k" and acc: "accepted k" and new: "k \<notin> fst ` set seen"
  shows "seen_inv str (rows @ [row])
           (seen @ [(k, \<lparr>ticker = Some (take 4 k @ ascii ''.T''), rawCode = k, name = row_name str row\<rparr>)])"
proof -
  let ?s = "\<lparr>ticker = Some (take 4 k @ ascii ''.T''), rawCode = k, name = row_name str row\<rparr>"
  have first: "\<forall>j<length rows. row_code str (rows ! j) \<noteq> Some k"
  proof (intro allI impI notI)
    fix j assume "j < length rows" "row_code str (rows ! j) = Some k"
    with inv acc have "k \<in> fst ` set seen" unfolding seen_inv_def by blast
    with new show False by simp
  qed
  from inv have d: "distinct (map fst (seen @ [(k, ?s)]))"
    using new by (simp add: seen_inv_def)
  have b: "rawCode s = k' \<and> accepted k' \<and> ticker s = Some (take 4 k' @ ascii ''.T'')
            \<and> (\<exists>i<length (rows @ [row]). row_code str ((rows @ [row]) ! i) = Some k'
                  \<and> (\<forall>j<i. row_code str ((rows @ [row]) ! j) \<noteq> Some k')
                  \<and> name s = row_name str ((rows @ [row]) ! i))"
    if "(k', s) \<in> set (seen @ [(k, ?s)])" for k' s
  proof (cases "(k', s) \<in> set seen")
    case True
    from inv True obtain i where i: "rawCode s = k'" "accepted k'"
      "ticker s = Some (take 4 k' @ ascii ''.T'')" "i < length rows" "row_code str (rows ! i) = Some k'"
      "\<forall>j<i. row_code str (rows ! j) \<noteq> Some k'" "name s = row_name str (rows ! i)"
      unfolding seen_inv_def by fast
    from i(4) have "i < length (rows @ [row])" by simp
    moreover from i(4,5) have "row_code str ((rows @ [row]) ! i) = Some k'" by (simp add: nth_append)
    moreover from i(4,6) have "\<forall>j<i. row_code str ((rows @ [row]) ! j) \<noteq> Some k'" by (simp add: nth_append)
    moreover from i(4,7) have "name s = row_name str ((rows @ [row]) ! i)" by (simp add: nth_append)
    ultimately show ?thesis using i(1,2,3) by blast
  next
    case False
    with that have eq: "k' = k" "s = ?s" by auto
    have "length rows < length (rows @ [row])" by simp
    moreover have "row_code str ((rows @ [row]) ! length rows) = Some k" using rc by simp
    moreover have "\<forall>j<length rows. row_code str ((rows @ [row]) ! j) \<noteq> Some k"
      using first by (simp add: nth_append)
    moreover have "name ?s = row_name str ((rows @ [row]) ! length rows)" by simp
    ultimately have "\<exists>i<length (rows @ [row]). row_code str ((rows @ [row]) ! i) = Some k
                  \<and> (\<forall>j<i. row_code str ((rows @ [row]) ! j) \<noteq> Some k)
                  \<and> name ?s = row_name str ((rows @ [row]) ! i)"
      by blast
    with acc show ?thesis unfolding eq by simp
  qed
  have c: "k' \<in> fst ` set (seen @ [(k, ?s)])"
    if "i < length (rows @ [row])" "row_code str ((rows @ [row]) ! i) = Some k'" "accepted k'" for i k'
  proof (cases "i < length rows")
    case True
    with that(2) have "row_code str (rows ! i) = Some k'" by (simp add: nth_append)
    with inv True that(3) have "k' \<in> fst ` set seen" unfolding seen_inv_def by blast
    then show ?thesis by auto
  next
    case False
    with that(1) have "i = length rows" by simp
    with that(2) rc have "k' = k" by simp
    then show ?thesis by simp
  qed
  from d b c show ?thesis unfolding seen_inv_def by blast
qed

lemma seen_inv_step:
  assumes "seen_inv str rows seen"
  shows "seen_inv str (rows @ [row]) (row_step str row seen)"
proof (cases "row_code str row")
  case None
  then have "row_step str row seen = seen" by (simp add: row_step_eq)
  moreover have "seen_inv str (rows @ [row]) seen"
    using assms by (rule seen_inv_keep) (simp add: None)
  ultimately show ?thesis by simp
next
  case (Some k)
  show ?thesis
  proof (cases "accepted k \<and> k \<notin> fst ` set seen")
    case True
    then have "row_step str row seen
       = seen @ [(k, \<lparr>ticker = Some (take 4 k @ ascii ''.T''), rawCode = k, name = row_name str row\<rparr>)]"
      by (simp add: row_step_eq Some)
    moreover have "seen_inv str (rows @ [row])
        (seen @ [(k, \<lparr>ticker = Some (take 4 k @ ascii ''.T''), rawCode = k, name = row_name str row\<rparr>)])"
      using assms Some True by (intro seen_inv_add) simp_all
    ultimately show ?thesis by simp
  next
    case False
    then have "row_step str row seen = seen" by (simp add: row_step_eq Some)
    moreover have "seen_inv str (rows @ [row]) seen"
      using assms
    proof (rule seen_inv_keep)
      fix k' assume "row_code str row = Some k'" "accepted k'"
      with Some False show "k' \<in> fst ` set seen" by simp
    qed
    ultimately show ?thesis by simp
  qed
qed

lemma seen_inv_fold: "seen_inv str rows (fold (row_step str) rows [])"
proof (induction rows rule: rev_induct)
  case Nil
  show ?case by (simp add: seen_inv_def)
next
  case (snoc row rows)
  then show ?case by (simp add: seen_inv_step)
qed

text \<open>
  Claim C10. The raw codes of the instruments \<open>getUniqueStocks\<close> returns are pairwise
  distinct. Each instrument comes from the first row whose trimmed code is its raw code,
  and takes its name from that row; its raw code has at least 4 characters, the first 4
  are ASCII letters or digits, and its ticker is these 4 characters followed by \<open>.T\<close>.
  Every row whose trimmed code passes this test has its code in the result. This holds
  whatever text \<open>String\<close> gives a numeric cell.
\<close>

theorem getUniqueStocks_first_row_per_code:
  "distinct (map rawCode (getUniqueStocks str rows))
   \<and> (\<forall>s\<in>set (getUniqueStocks str rows).
         4 \<le> length (rawCode s) \<and> list_all is_alnum (take 4 (rawCode s))
         \<and> ticker s = Some (take 4 (rawCode s) @ ascii ''.T'')
         \<and> (\<exists>i<length rows. row_code str (rows ! i) = Some (rawCode s)
               \<and> (\<forall>j<i. row_code str (rows ! j) \<noteq> Some (rawCode s))
               \<and> name s = row_name str (rows ! i)))
   \<and> (\<forall>i<length rows. \<forall>k. row_code str (rows ! i) = Some k \<and> 4 \<le> length k \<and> list_all is_alnum (take 4 k)
         \<longrightarrow> k \<in> rawCode ` set (getUniqueStocks str rows))"
proof -
  define seen where "seen = fold (row_step str) rows []"
  have inv: "seen_inv str rows seen" unfolding seen_def by (rule seen_inv_fold)
  have out: "getUniqueStocks str rows = map snd seen" by (simp add: getUniqueStocks_def seen_def)
  have key: "rawCode s = k" if "(k, s) \<in> set seen" for k s
    using inv that unfolding seen_inv_def by fast
  then have meq: "map (rawCode \<circ> snd) seen = map fst seen" by auto
  from inv have "distinct (map fst seen)" by (simp add: seen_inv_def)
  then have a: "distinct (map rawCode (getUniqueStocks str rows))"
    by (simp only: out map_map meq)
  have b: "4 \<le> length (rawCode s) \<and> list_all is_alnum (take 4 (rawCode s))
         \<and> ticker s = Some (take 4 (rawCode s) @ ascii ''.T'')
         \<and> (\<exists>i<length rows. row_code str (rows ! i) = Some (rawCode s)
               \<and> (\<forall>j<i. row_code str (rows ! j) \<noteq> Some (rawCode s))
               \<and> name s = row_name str (rows ! i))"
    if "s \<in> set (getUniqueStocks str rows)" for s
  proof -
    from that obtain k where ks: "(k, s) \<in> set seen" by (auto simp: out)
    from inv ks have "rawCode s = k \<and> accepted k \<and> ticker s = Some (take 4 k @ ascii ''.T'')
            \<and> (\<exists>i<length rows. row_code str (rows ! i) = Some k
                  \<and> (\<forall>j<i. row_code str (rows ! j) \<noteq> Some k) \<and> name s = row_name str (rows ! i))"
      unfolding seen_inv_def by fast
    then show ?thesis by (auto simp: accepted_def)
  qed
  have c: "k \<in> rawCode ` set (getUniqueStocks str rows)"
    if "i < length rows" "row_code str (rows ! i) = Some k" "4 \<le> length k" "list_all is_alnum (take 4 k)" for i k
  proof -
    from that(3,4) have "accepted k" by (simp add: accepted_def)
    with inv that(1,2) have "k \<in> fst ` set seen" unfolding seen_inv_def by blast
    then obtain s where ks: "(k, s) \<in> set seen" by auto
    then have "rawCode s = k" by (rule key)
    moreover from ks have "s \<in> set (getUniqueStocks str rows)" by (force simp: out)
    ultimately show ?thesis by blast
  qed
  from a b c show ?thesis by blast
qed


text \<open>
  The theorem on two rows with the same code 1301, the first named A, the second B: the
  one instrument returned is named A. The numeric cells are 20240101 and 1301, which
  \<open>String\<close> prints in plain digits, as \<open>String_int\<close> does.
\<close>

theorem getUniqueStocks_first_row_per_code_witness:
  "getUniqueStocks String_int two_rows = [stock_1301]
   \<and> stock_1301 \<in> set (getUniqueStocks String_int two_rows)
   \<and> (\<exists>i<length two_rows. row_code String_int (two_rows ! i) = Some (rawCode stock_1301)
         \<and> (\<forall>j<i. row_code String_int (two_rows ! j) \<noteq> Some (rawCode stock_1301))
         \<and> name stock_1301 = row_name String_int (two_rows ! i))
   \<and> ticker stock_1301 = Some (take 4 (rawCode stock_1301) @ ascii ''.T'')"
proof -
  have ev: "getUniqueStocks String_int two_rows = [stock_1301]"
    by (simp add: two_rows_def stock_1301_def getUniqueStocks_def row_step_def COL_CODE_def
        COL_NAME_def String_cell_def String_int_def digits.simps trim_def is_js_space_def
        toTicker_def test_alnum_def is_alnum_def truthy_def row_name_def falsy_cell_def ascii_def
        Let_def)
  then have m: "stock_1301 \<in> set (getUniqueStocks String_int two_rows)" by simp
  note inst = getUniqueStocks_first_row_per_code [of String_int two_rows]
  note at_s = inst [THEN conjunct2, THEN conjunct1, THEN bspec, OF m]
  note a = at_s [THEN conjunct2, THEN conjunct2, THEN conjunct2]
  note b = at_s [THEN conjunct2, THEN conjunct2, THEN conjunct1]
  from ev m a b show ?thesis by (intro conjI)
qed

section \<open>Properties of fetchAllPrices\<close>

lemma batches_from_done: "\<not> i < length xs \<Longrightarrow> batches_from xs i = []"
  by (simp add: batches_from_def BATCH_SIZE_def)

lemma batches_from_step:
  assumes "i < length xs"
  shows "batches_from xs i = take BATCH_SIZE (drop i xs) # batches_from xs (i + BATCH_SIZE)"
proof -
  have n: "(length xs - i + 4) div 5 = Suc ((length xs - (i + 5) + 4) div 5)"
  proof -
    from assms obtain m where m: "length xs - i = Suc m"
      by (metis Suc_diff_Suc)
    have l: "(length xs - i + 4) div 5 = Suc (m div 5)"
    proof -
      have "length xs - i + 4 = m + 5" using m by simp
      then show ?thesis by simp
    qed
    show ?thesis
    proof (cases "4 \<le> m")
      case True
      with m have "length xs - (i + 5) + 4 = m" by linarith
      with l show ?thesis by simp
    next
      case False
      with m have "length xs - (i + 5) + 4 = 4" by linarith
      moreover from False have "m div 5 = 0" by simp
      ultimately show ?thesis using l by simp
    qed
  qed
  have "map (\<lambda>k. take 5 (drop (i + 5 * k) xs)) [0..<Suc ((length xs - (i + 5) + 4) div 5)]
      = take 5 (drop i xs) # map (\<lambda>k. take 5 (drop (i + 5 + 5 * k) xs)) [0..<(length xs - (i + 5) + 4) div 5]"
    by (simp add: map_upt_Suc del: upt_Suc) (simp add: add.assoc add.commute)
  then show ?thesis
    by (simp add: batches_from_def BATCH_SIZE_def n)
qed

lemma batches_from_empty_iff: "batches_from xs i = [] \<longleftrightarrow> \<not> i < length xs"
  using batches_from_done [of i xs] batches_from_step [of i xs] by auto

lemma concat_batches_from: "concat (batches_from xs i) = drop i xs"
proof (induction "length xs - i" arbitrary: i rule: less_induct)
  case less
  show ?case
  proof (cases "i < length xs")
    case False
    then show ?thesis by (simp add: batches_from_done)
  next
    case True
    then have "length xs - (i + BATCH_SIZE) < length xs - i" by (simp add: BATCH_SIZE_def)
    then have "concat (batches_from xs (i + BATCH_SIZE)) = drop (i + BATCH_SIZE) xs"
      by (rule less)
    moreover have "drop (i + BATCH_SIZE) xs = drop BATCH_SIZE (drop i xs)"
      by (simp add: add.commute)
    ultimately have "concat (batches_from xs i) = take BATCH_SIZE (drop i xs) @ drop BATCH_SIZE (drop i xs)"
      by (simp only: batches_from_step [OF True] concat.simps)
    then show ?thesis by (simp only: append_take_drop_id)
  qed
qed

lemma length_batches_from:
  "b \<in> set (batches_from xs i) \<Longrightarrow> 1 \<le> length b \<and> length b \<le> BATCH_SIZE"
  by (auto simp: batches_from_def BATCH_SIZE_def)

lemma butlast_batches_from:
  "b \<in> set (butlast (batches_from xs i)) \<Longrightarrow> length b = BATCH_SIZE"
proof -
  assume "b \<in> set (butlast (batches_from xs i))"
  then obtain k where k: "k < length (batches_from xs i) - 1" "b = batches_from xs i ! k"
    by (auto simp: in_set_conv_nth nth_butlast)
  define n where "n = (length xs - i + 4) div 5"
  from k(1) have kn: "k + 1 < n" by (simp add: batches_from_def BATCH_SIZE_def n_def)
  then have "k + 2 \<le> (length xs - i + 4) div 5" unfolding n_def by simp
  then have "(k + 2) * 5 \<le> length xs - i + 4"
    by (simp only: less_eq_div_iff_mult_less_eq [of 5, simplified])
  then have "5 * k + 10 \<le> length xs - i + 4" by simp
  then have "i + 5 * k + 5 \<le> length xs" by linarith
  moreover from kn have "b = take 5 (drop (i + 5 * k) xs)"
    using k(2) by (simp add: batches_from_def BATCH_SIZE_def n_def)
  ultimately show ?thesis by (simp add: BATCH_SIZE_def)
qed

lemma intersperse_Cons:
  "intersperse x (a # as) = a # (if as = [] then [] else x # intersperse x as)"
  by (cases as) simp_all


lemma batch_loop_unfold:
  "batch_loop resolve sched stocks i st =
     (if i < length stocks
      then batch_loop resolve sched stocks (i + BATCH_SIZE) (batch_body resolve sched stocks i st)
      else st)"
  by (subst batch_loop.simps) (simp add: batch_body_def Let_def)

lemma mset_settle_order: "mset (settle_order ks xs) = mset xs"
proof (induction ks xs rule: settle_order.induct)
  case (3 k ks v va)
  define xs where "xs = v # va"
  define j where "j = k mod length xs"
  have j: "j < length xs" by (simp add: j_def xs_def)
  have "mset (settle_order ks (take j xs @ drop (Suc j) xs)) = mset (take j xs @ drop (Suc j) xs)"
    using 3 by (simp add: xs_def j_def)
  then have "mset (settle_order (k # ks) xs) = mset (xs ! j # (take j xs @ drop (Suc j) xs))"
    by (simp add: xs_def j_def Let_def)
  also have "\<dots> = mset (take j xs @ xs ! j # drop (Suc j) xs)" by simp
  also have "take j xs @ xs ! j # drop (Suc j) xs = xs" using j by (simp add: id_take_nth_drop [symmetric])
  finally show ?case by (simp add: xs_def)
qed simp_all

lemma set_settle_order: "set (settle_order ks xs) = set xs"
  using mset_settle_order [of ks xs] by (metis set_mset_mset)

lemma length_settle_order: "length (settle_order ks xs) = length xs"
  using mset_settle_order [of ks xs] by (metis size_mset)

lemma settle_simps:
  "trace (settle resolve n s st) = trace st @ [Progress (completed st + 1) n]"
  "completed (settle resolve n s st) = completed st + 1"
  "isFetching (settle resolve n s st) = isFetching st"
  "closingPrices (settle resolve n s st) = (closingPrices st)(rawCode s \<mapsto> resolve s)"
  "errorMessages (settle resolve n s st)
     = errorMessages st @ (if truthy (error (resolve s)) then [error_entry_of resolve s] else [])"
  by (simp_all add: settle_def Let_def error_entry_of_def)

lemma fold_settle_completed:
  "completed (fold (settle resolve n) xs st) = completed st + length xs"
  by (induction xs arbitrary: st) (simp_all add: settle_simps)

lemma fold_settle_isFetching:
  "isFetching (fold (settle resolve n) xs st) = isFetching st"
  by (induction xs arbitrary: st) (simp_all add: settle_simps)

lemma fold_settle_trace:
  "trace (fold (settle resolve n) xs st)
     = trace st @ map (\<lambda>k. Progress k n) [completed st + 1..<completed st + 1 + length xs]"
proof (induction xs arbitrary: st)
  case Nil
  show ?case by simp
next
  case (Cons s xs)
  have "[completed st + 1..<completed st + 1 + length (s # xs)]
      = (completed st + 1) # [completed st + 1 + 1..<completed st + 1 + 1 + length xs]"
    by (subst upt_rec) simp
  then show ?case by (simp only: fold_simps Cons settle_simps list.map append_assoc append.simps comp_apply)
qed

lemma fold_settle_errors:
  "errorMessages (fold (settle resolve n) xs st)
     = errorMessages st @ map (error_entry_of resolve) (filter (\<lambda>s. truthy (error (resolve s))) xs)"
  by (induction xs arbitrary: st) (simp_all add: settle_simps)

lemma fold_settle_dom:
  "dom (closingPrices (fold (settle resolve n) xs st)) = dom (closingPrices st) \<union> rawCode ` set xs"
  by (induction xs arbitrary: st) (auto simp: settle_simps)

lemma fold_settle_lookup:
  "closingPrices (fold (settle resolve n) xs st) k = Some r \<Longrightarrow>
     closingPrices st k = Some r \<or> (\<exists>s\<in>set xs. rawCode s = k \<and> r = resolve s)"
proof (induction xs arbitrary: st)
  case Nil
  then show ?case by simp
next
  case (Cons s xs)
  from Cons.prems have "closingPrices (fold (settle resolve n) xs (settle resolve n s st)) k = Some r"
    by simp
  from Cons.IH [OF this] show ?case
    by (auto simp: settle_simps split: if_splits)
qed

lemma progress_calls_append: "progress_calls (xs @ ys) = progress_calls xs @ progress_calls ys"
  by (simp add: progress_calls_def)

lemma pacing_append: "pacing (xs @ ys) = pacing xs @ pacing ys"
  by (simp add: pacing_def)

lemma progress_calls_Progress:
  "progress_calls (map (\<lambda>k. Progress k n) ks) = map (\<lambda>k. Progress k n) ks"
  by (induction ks) (simp_all add: progress_calls_def is_progress_def)

lemma pacing_Progress: "pacing (map (\<lambda>k. Progress k n) ks) = []"
  by (induction ks) (simp_all add: pacing_def is_progress_def)


lemma length_batch: "length (take BATCH_SIZE (drop i xs)) = min BATCH_SIZE (length xs - i)"
  by simp

lemma batch_body_completed:
  "completed (batch_body resolve sched stocks i st)
     = completed st + length (take BATCH_SIZE (drop i stocks))"
  by (simp add: batch_body_def Let_def fold_settle_completed length_settle_order del: length_take)

lemma batch_body_isFetching:
  "isFetching (batch_body resolve sched stocks i st) = isFetching st"
  by (simp add: batch_body_def Let_def fold_settle_isFetching)

lemma batch_body_trace:
  "trace (batch_body resolve sched stocks i st)
     = trace st @ [Launch (take BATCH_SIZE (drop i stocks))]
       @ map (\<lambda>k. Progress k (length stocks))
           [completed st + 1..<completed st + 1 + length (take BATCH_SIZE (drop i stocks))]
       @ (if i + BATCH_SIZE < length stocks then [Sleep BATCH_DELAY_MS] else [])"
  by (simp add: batch_body_def Let_def fold_settle_trace length_settle_order del: length_take)

lemma batch_body_progress:
  "progress_calls (trace (batch_body resolve sched stocks i st))
     = progress_calls (trace st)
       @ map (\<lambda>k. Progress k (length stocks))
           [completed st + 1..<completed st + 1 + length (take BATCH_SIZE (drop i stocks))]"
  unfolding batch_body_trace progress_calls_append progress_calls_Progress
  by (simp add: progress_calls_def is_progress_def)

lemma batch_body_pacing:
  "pacing (trace (batch_body resolve sched stocks i st))
     = pacing (trace st) @ [Launch (take BATCH_SIZE (drop i stocks))]
       @ (if i + BATCH_SIZE < length stocks then [Sleep BATCH_DELAY_MS] else [])"
  unfolding batch_body_trace pacing_append pacing_Progress
  by (simp add: pacing_def is_progress_def)

lemma batch_body_errors:
  "mset (errorMessages (batch_body resolve sched stocks i st))
     = mset (errorMessages st)
       + mset (map (error_entry_of resolve)
                 (filter (\<lambda>s. truthy (error (resolve s))) (take BATCH_SIZE (drop i stocks))))"
proof -
  have "errorMessages (batch_body resolve sched stocks i st)
      = errorMessages st @ map (error_entry_of resolve)
          (filter (\<lambda>s. truthy (error (resolve s)))
             (settle_order (sched i) (take BATCH_SIZE (drop i stocks))))"
    by (simp add: batch_body_def Let_def fold_settle_errors)
  moreover have "mset (map (error_entry_of resolve) (filter (\<lambda>s. truthy (error (resolve s))) xs))
      = image_mset (error_entry_of resolve) (filter_mset (\<lambda>s. truthy (error (resolve s))) (mset xs))"
    for xs by simp
  ultimately show ?thesis
    by (simp only: mset_append mset_settle_order)
qed

lemma batch_body_dom:
  "dom (closingPrices (batch_body resolve sched stocks i st))
     = dom (closingPrices st) \<union> rawCode ` set (take BATCH_SIZE (drop i stocks))"
  by (simp add: batch_body_def Let_def fold_settle_dom set_settle_order)

lemma batch_body_lookup:
  assumes "closingPrices (batch_body resolve sched stocks i st) k = Some r"
  shows "closingPrices st k = Some r
     \<or> (\<exists>s\<in>set (take BATCH_SIZE (drop i stocks)). rawCode s = k \<and> r = resolve s)"
proof -
  define st1 where "st1 = st\<lparr>trace := trace st @ [Launch (take BATCH_SIZE (drop i stocks))]\<rparr>"
  from assms have "closingPrices (fold (settle resolve (length stocks))
                  (settle_order (sched i) (take BATCH_SIZE (drop i stocks))) st1) k = Some r"
    by (simp add: batch_body_def Let_def st1_def split: if_splits)
  from fold_settle_lookup [OF this] show ?thesis
    by (simp add: set_settle_order st1_def)
qed

lemma drop_batch: "take BATCH_SIZE (drop i xs) @ drop (i + BATCH_SIZE) xs = drop i xs"
proof -
  have "drop (i + BATCH_SIZE) xs = drop BATCH_SIZE (drop i xs)" by (simp add: add.commute)
  then show ?thesis by (simp only: append_take_drop_id)
qed

text \<open>
  Induction along the iterations of the batch loop: a relation between the position, the
  state there and the final state that holds when the loop stops and is carried backwards
  over one iteration holds for the whole loop.
\<close>

lemma batch_loop_rule:
  assumes base: "\<And>i st. \<not> i < length stocks \<Longrightarrow> Q i st st"
    and step: "\<And>i st f. i < length stocks \<Longrightarrow>
                 Q (i + BATCH_SIZE) (batch_body resolve sched stocks i st) f \<Longrightarrow> Q i st f"
  shows "Q i st (batch_loop resolve sched stocks i st)"
proof (induction "length stocks - i" arbitrary: i st rule: less_induct)
  case less
  show ?case
  proof (cases "i < length stocks")
    case False
    then have "batch_loop resolve sched stocks i st = st"
      by (subst batch_loop_unfold) simp
    with base [OF False] show ?thesis by simp
  next
    case True
    then have "length stocks - (i + BATCH_SIZE) < length stocks - i"
      by (simp add: BATCH_SIZE_def)
    then have "Q (i + BATCH_SIZE) (batch_body resolve sched stocks i st)
                 (batch_loop resolve sched stocks (i + BATCH_SIZE) (batch_body resolve sched stocks i st))"
      by (rule less)
    then have "Q i st (batch_loop resolve sched stocks (i + BATCH_SIZE) (batch_body resolve sched stocks i st))"
      by (rule step [OF True])
    moreover have "batch_loop resolve sched stocks i st
        = batch_loop resolve sched stocks (i + BATCH_SIZE) (batch_body resolve sched stocks i st)"
      using True by (subst batch_loop_unfold) simp
    ultimately show ?thesis by simp
  qed
qed

lemma batch_loop_isFetching:
  "isFetching (batch_loop resolve sched stocks i st) = isFetching st"
  by (rule batch_loop_rule [where Q = "\<lambda>i st f. isFetching f = isFetching st"])
     (simp_all add: batch_body_isFetching)

lemma batch_loop_completed:
  "completed (batch_loop resolve sched stocks i st) = completed st + (length stocks - i)"
  by (rule batch_loop_rule [where Q = "\<lambda>i st f. completed f = completed st + (length stocks - i)"])
     (auto simp: batch_body_completed BATCH_SIZE_def)

lemma batch_loop_progress:
  "progress_calls (trace (batch_loop resolve sched stocks i st))
     = progress_calls (trace st)
       @ map (\<lambda>k. Progress k (length stocks))
           [completed st + 1..<completed st + 1 + (length stocks - i)]"
proof (rule batch_loop_rule [where Q = "\<lambda>i st f. progress_calls (trace f)
     = progress_calls (trace st)
       @ map (\<lambda>k. Progress k (length stocks))
           [completed st + 1..<completed st + 1 + (length stocks - i)]"])
  fix i st
  assume "\<not> i < length stocks"
  then show "progress_calls (trace st) = progress_calls (trace st)
       @ map (\<lambda>k. Progress k (length stocks))
           [completed st + 1..<completed st + 1 + (length stocks - i)]"
    by simp
next
  fix i st f
  assume lt: "i < length stocks"
    and ih: "progress_calls (trace f)
     = progress_calls (trace (batch_body resolve sched stocks i st))
       @ map (\<lambda>k. Progress k (length stocks))
           [completed (batch_body resolve sched stocks i st) + 1
            ..<completed (batch_body resolve sched stocks i st) + 1 + (length stocks - (i + BATCH_SIZE))]"
  define c where "c = completed st + 1"
  define m where "m = length (take BATCH_SIZE (drop i stocks))"
  define l where "l = length stocks - (i + BATCH_SIZE)"
  define P where "P = (\<lambda>k. Progress k (length stocks))"
  have ml: "length stocks - i = m + l"
    by (auto simp: m_def l_def min_def)
  have "[c..<c + m + l] = [c..<c + m] @ [c + m..<c + m + l]"
    by (rule upt_add_eq_append) simp
  then have split: "map P [c..<c + (length stocks - i)] = map P [c..<c + m] @ map P [c + m..<c + m + l]"
    by (simp only: ml add.assoc map_append)
  have cb: "completed (batch_body resolve sched stocks i st) + 1 = c + m"
    by (simp only: batch_body_completed c_def m_def)
  have "progress_calls (trace f)
      = (progress_calls (trace st) @ map P [c..<c + m]) @ map P [c + m..<c + m + l]"
    using ih
    by (simp only: batch_body_progress cb c_def [symmetric] m_def [symmetric] l_def [symmetric]
        P_def [symmetric])
  also have "\<dots> = progress_calls (trace st) @ map P [c..<c + (length stocks - i)]"
    by (simp only: split append_assoc)
  finally show "progress_calls (trace f)
     = progress_calls (trace st)
       @ map (\<lambda>k. Progress k (length stocks))
           [completed st + 1..<completed st + 1 + (length stocks - i)]"
    by (simp only: c_def P_def)
qed

lemma batch_loop_pacing:
  "pacing (trace (batch_loop resolve sched stocks i st))
     = pacing (trace st) @ intersperse (Sleep BATCH_DELAY_MS) (map Launch (batches_from stocks i))"
proof (rule batch_loop_rule [where Q = "\<lambda>i st f. pacing (trace f)
     = pacing (trace st) @ intersperse (Sleep BATCH_DELAY_MS) (map Launch (batches_from stocks i))"])
  fix i st
  assume "\<not> i < length stocks"
  then show "pacing (trace st)
     = pacing (trace st) @ intersperse (Sleep BATCH_DELAY_MS) (map Launch (batches_from stocks i))"
    by (simp add: batches_from_done)
next
  fix i st f
  assume lt: "i < length stocks"
    and ih: "pacing (trace f)
     = pacing (trace (batch_body resolve sched stocks i st))
       @ intersperse (Sleep BATCH_DELAY_MS) (map Launch (batches_from stocks (i + BATCH_SIZE)))"
  have e: "(batches_from stocks (i + BATCH_SIZE) = []) = (\<not> i + BATCH_SIZE < length stocks)"
    by (rule batches_from_empty_iff)
  show "pacing (trace f)
     = pacing (trace st) @ intersperse (Sleep BATCH_DELAY_MS) (map Launch (batches_from stocks i))"
    unfolding ih batch_body_pacing batches_from_step [OF lt]
    by (simp add: intersperse_Cons e batches_from_done)
qed

lemma batch_loop_errors:
  "mset (errorMessages (batch_loop resolve sched stocks i st))
     = mset (errorMessages st)
       + mset (map (error_entry_of resolve) (filter (\<lambda>s. truthy (error (resolve s))) (drop i stocks)))"
proof (rule batch_loop_rule [where Q = "\<lambda>i st f. mset (errorMessages f)
     = mset (errorMessages st)
       + mset (map (error_entry_of resolve) (filter (\<lambda>s. truthy (error (resolve s))) (drop i stocks)))"])
  fix i st
  assume "\<not> i < length stocks"
  then show "mset (errorMessages st) = mset (errorMessages st)
       + mset (map (error_entry_of resolve) (filter (\<lambda>s. truthy (error (resolve s))) (drop i stocks)))"
    by simp
next
  fix i st f
  assume ih: "mset (errorMessages f)
     = mset (errorMessages (batch_body resolve sched stocks i st))
       + mset (map (error_entry_of resolve)
                 (filter (\<lambda>s. truthy (error (resolve s))) (drop (i + BATCH_SIZE) stocks)))"
  have "filter (\<lambda>s. truthy (error (resolve s))) (drop i stocks)
      = filter (\<lambda>s. truthy (error (resolve s))) (take BATCH_SIZE (drop i stocks))
        @ filter (\<lambda>s. truthy (error (resolve s))) (drop (i + BATCH_SIZE) stocks)"
    by (simp only: filter_append [symmetric] drop_batch)
  then show "mset (errorMessages f)
     = mset (errorMessages st)
       + mset (map (error_entry_of resolve) (filter (\<lambda>s. truthy (error (resolve s))) (drop i stocks)))"
    unfolding ih batch_body_errors by simp
qed

lemma batch_loop_dom:
  "dom (closingPrices (batch_loop resolve sched stocks i st))
     = dom (closingPrices st) \<union> rawCode ` set (drop i stocks)"
proof (rule batch_loop_rule [where Q = "\<lambda>i st f. dom (closingPrices f)
     = dom (closingPrices st) \<union> rawCode ` set (drop i stocks)"])
  fix i st
  assume "\<not> i < length stocks"
  then show "dom (closingPrices st) = dom (closingPrices st) \<union> rawCode ` set (drop i stocks)"
    by simp
next
  fix i st f
  assume ih: "dom (closingPrices f)
     = dom (closingPrices (batch_body resolve sched stocks i st))
       \<union> rawCode ` set (drop (i + BATCH_SIZE) stocks)"
  have "set (drop i stocks)
      = set (take BATCH_SIZE (drop i stocks)) \<union> set (drop (i + BATCH_SIZE) stocks)"
    by (simp only: set_append [symmetric] drop_batch)
  then show "dom (closingPrices f) = dom (closingPrices st) \<union> rawCode ` set (drop i stocks)"
    unfolding ih batch_body_dom by (simp add: image_Un Un_assoc)
qed

lemma batch_loop_lookup:
  "closingPrices (batch_loop resolve sched stocks i st) k = Some r \<longrightarrow>
     closingPrices st k = Some r \<or> (\<exists>s\<in>set (drop i stocks). rawCode s = k \<and> r = resolve s)"
proof (rule batch_loop_rule [where Q = "\<lambda>i st f. closingPrices f k = Some r \<longrightarrow>
     closingPrices st k = Some r \<or> (\<exists>s\<in>set (drop i stocks). rawCode s = k \<and> r = resolve s)"])
  fix i st
  show "closingPrices st k = Some r \<longrightarrow>
     closingPrices st k = Some r \<or> (\<exists>s\<in>set (drop i stocks). rawCode s = k \<and> r = resolve s)"
    by simp
next
  fix i st f
  assume ih: "closingPrices f k = Some r \<longrightarrow>
     closingPrices (batch_body resolve sched stocks i st) k = Some r
       \<or> (\<exists>s\<in>set (drop (i + BATCH_SIZE) stocks). rawCode s = k \<and> r = resolve s)"
  have sub: "set (drop i stocks)
      = set (take BATCH_SIZE (drop i stocks)) \<union> set (drop (i + BATCH_SIZE) stocks)"
    by (simp only: set_append [symmetric] drop_batch)
  show "closingPrices f k = Some r \<longrightarrow>
     closingPrices st k = Some r \<or> (\<exists>s\<in>set (drop i stocks). rawCode s = k \<and> r = resolve s)"
  proof
    assume "closingPrices f k = Some r"
    with ih consider "closingPrices (batch_body resolve sched stocks i st) k = Some r"
      | "\<exists>s\<in>set (drop (i + BATCH_SIZE) stocks). rawCode s = k \<and> r = resolve s"
      by blast
    then show "closingPrices st k = Some r
        \<or> (\<exists>s\<in>set (drop i stocks). rawCode s = k \<and> r = resolve s)"
    proof cases
      case 1
      from batch_body_lookup [OF this] show ?thesis unfolding sub by blast
    next
      case 2
      then show ?thesis unfolding sub by blast
    qed
  qed
qed

lemma fetchAllPrices_fields:
  "trace (fetchAllPrices resolve sched stocks)
     = trace (batch_loop resolve sched stocks 0
         \<lparr>isFetching = True, closingPrices = Map.empty, errorMessages = [], completed = 0,
          trace = [Progress 0 (length stocks)]\<rparr>) @ [Progress (length stocks) (length stocks)]"
  "isFetching (fetchAllPrices resolve sched stocks) = False"
  "completed (fetchAllPrices resolve sched stocks)
     = completed (batch_loop resolve sched stocks 0
         \<lparr>isFetching = True, closingPrices = Map.empty, errorMessages = [], completed = 0,
          trace = [Progress 0 (length stocks)]\<rparr>)"
  "closingPrices (fetchAllPrices resolve sched stocks)
     = closingPrices (batch_loop resolve sched stocks 0
         \<lparr>isFetching = True, closingPrices = Map.empty, errorMessages = [], completed = 0,
          trace = [Progress 0 (length stocks)]\<rparr>)"
  "errorMessages (fetchAllPrices resolve sched stocks)
     = errorMessages (batch_loop resolve sched stocks 0
         \<lparr>isFetching = True, closingPrices = Map.empty, errorMessages = [], completed = 0,
          trace = [Progress 0 (length stocks)]\<rparr>)"
  by (simp_all add: fetchAllPrices_def Let_def)

lemma fetchAllPrices_progress:
  "progress_calls (trace (fetchAllPrices resolve sched stocks))
     = Progress 0 (length stocks)
       # map (\<lambda>k. Progress k (length stocks)) [1..<length stocks + 1]
       @ [Progress (length stocks) (length stocks)]"
  by (simp add: fetchAllPrices_fields progress_calls_append batch_loop_progress)
     (simp add: progress_calls_def is_progress_def)

lemma fetchAllPrices_pacing:
  "pacing (trace (fetchAllPrices resolve sched stocks))
     = intersperse (Sleep BATCH_DELAY_MS) (map Launch (batches_from stocks 0))"
  by (simp add: fetchAllPrices_fields pacing_append batch_loop_pacing)
     (simp add: pacing_def is_progress_def)

lemma launches_append: "launches (xs @ ys) = launches xs @ launches ys"
  by (simp add: launches_def)

lemma launches_pacing: "launches (pacing tr) = launches tr"
  by (induction tr) (auto simp: launches_def pacing_def is_progress_def split: event.splits)

lemma launches_intersperse: "launches (intersperse (Sleep d) (map Launch bs)) = bs"
  by (induction bs rule: induct_list012) (simp_all add: launches_def)

lemma fetchAllPrices_launches:
  "launches (trace (fetchAllPrices resolve sched stocks)) = batches_from stocks 0"
proof -
  have "launches (trace (fetchAllPrices resolve sched stocks))
      = launches (pacing (trace (fetchAllPrices resolve sched stocks)))"
    by (simp only: launches_pacing)
  also have "\<dots> = batches_from stocks 0"
    by (simp only: fetchAllPrices_pacing launches_intersperse)
  finally show ?thesis .
qed

lemma sleeps_intersperse:
  "length (filter (\<lambda>e. e = Sleep d) (intersperse (Sleep d) (map Launch bs))) = length bs - 1"
  by (induction bs rule: induct_list012) simp_all

lemma filter_key_distinct:
  "distinct (map f xs) \<Longrightarrow> x \<in> set xs \<Longrightarrow> filter (\<lambda>y. f y = f x) xs = [x]"
proof (induction xs)
  case Nil
  then show ?case by simp
next
  case (Cons a xs)
  show ?case
  proof (cases "x = a")
    case True
    from Cons.prems(1) have "f a \<notin> f ` set xs" by simp
    then have "\<forall>y\<in>set xs. f y \<noteq> f a" by (metis imageI)
    then have "filter (\<lambda>y. f y = f a) xs = []" by (simp add: filter_empty_conv)
    with True show ?thesis by simp
  next
    case False
    with Cons.prems have x: "x \<in> set xs" and d: "distinct (map f xs)" by auto
    from Cons.prems(1) have "f a \<notin> f ` set xs" by simp
    with x have "f a \<noteq> f x" by (metis imageI)
    with Cons.IH [OF d x] show ?thesis by simp
  qed
qed

lemma sleeps_trace:
  "filter (\<lambda>e. e = Sleep d) tr = filter (\<lambda>e. e = Sleep d) (pacing tr)"
  by (induction tr) (auto simp: pacing_def is_progress_def)

lemma fetchAllPrices_sleeps:
  "length (filter (\<lambda>e. e = Sleep BATCH_DELAY_MS) (trace (fetchAllPrices resolve sched stocks)))
     = length (batches_from stocks 0) - 1"
  by (subst sleeps_trace) (simp only: fetchAllPrices_pacing sleeps_intersperse)

lemma fetchAllPrices_results_dom:
  "dom (closingPrices (fetchAllPrices resolve sched stocks)) = rawCode ` set stocks"
  by (simp add: fetchAllPrices_fields batch_loop_dom)

lemma fetchAllPrices_results_lookup:
  assumes "closingPrices (fetchAllPrices resolve sched stocks) k = Some r"
  shows "\<exists>s\<in>set stocks. rawCode s = k \<and> r = resolve s"
proof -
  define st0 where "st0 = \<lparr>isFetching = True, closingPrices = Map.empty, errorMessages = [],
      completed = 0, trace = [Progress 0 (length stocks)]\<rparr>"
  from assms have "closingPrices (batch_loop resolve sched stocks 0 st0) k = Some r"
    by (simp add: fetchAllPrices_fields st0_def)
  with batch_loop_lookup [of resolve sched stocks 0 st0 k r]
  have "closingPrices st0 k = Some r \<or> (\<exists>s\<in>set (drop 0 stocks). rawCode s = k \<and> r = resolve s)"
    by blast
  moreover have "closingPrices st0 k = None" by (simp add: st0_def)
  ultimately show ?thesis by simp
qed

lemma fetchAllPrices_results_own:
  assumes "distinct (map rawCode stocks)" and "s \<in> set stocks"
  shows "closingPrices (fetchAllPrices resolve sched stocks) (rawCode s) = Some (resolve s)"
proof -
  from assms(2) have "rawCode s \<in> dom (closingPrices (fetchAllPrices resolve sched stocks))"
    by (simp add: fetchAllPrices_results_dom)
  then obtain r where r: "closingPrices (fetchAllPrices resolve sched stocks) (rawCode s) = Some r"
    by blast
  from fetchAllPrices_results_lookup [OF this]
  obtain s' where s': "s' \<in> set stocks" "rawCode s' = rawCode s" "r = resolve s'" by blast
  from assms(1) have "inj_on rawCode (set stocks)" by (simp add: distinct_map)
  with s'(1,2) assms(2) have "s' = s" by (auto dest: inj_onD)
  with r s'(3) show ?thesis by simp
qed

lemma fetchAllPrices_errors:
  "mset (errorMessages (fetchAllPrices resolve sched stocks))
     = mset (map (error_entry_of resolve) (filter (\<lambda>s. truthy (error (resolve s))) stocks))"
  by (simp only: fetchAllPrices_fields batch_loop_errors) simp

lemma fetchAllPrices_errors_once:
  assumes "distinct (map rawCode stocks)" and "s \<in> set stocks"
  shows "length (filter (\<lambda>e. err_code e = rawCode s) (errorMessages (fetchAllPrices resolve sched stocks)))
     = (if truthy (error (resolve s)) then 1 else 0)"
proof -
  define errs where "errs = errorMessages (fetchAllPrices resolve sched stocks)"
  define L where "L = map (error_entry_of resolve) (filter (\<lambda>s. truthy (error (resolve s))) stocks)"
  have m: "mset errs = mset L" unfolding errs_def L_def by (rule fetchAllPrices_errors)
  have "length (filter (\<lambda>e. err_code e = rawCode s) errs)
      = size (filter_mset (\<lambda>e. err_code e = rawCode s) (mset errs))"
    by (simp only: mset_filter [symmetric] size_mset)
  also have "\<dots> = length (filter (\<lambda>e. err_code e = rawCode s) L)"
    by (simp only: m mset_filter [symmetric] size_mset)
  also have "filter (\<lambda>e. err_code e = rawCode s) L
      = map (error_entry_of resolve)
          (filter (\<lambda>s'. truthy (error (resolve s'))) (filter (\<lambda>s'. rawCode s' = rawCode s) stocks))"
    by (simp add: L_def filter_map comp_def error_entry_of_def conj_commute)
  also have "filter (\<lambda>s'. rawCode s' = rawCode s) stocks = [s]"
    using assms by (rule filter_key_distinct)
  finally show ?thesis by (simp add: errs_def)
qed

lemma batches_from_0:
  "batches_from stocks 0
     = map (\<lambda>k. take 5 (drop (5 * k) stocks)) [0..<(length stocks + 4) div 5]"
  by (simp add: batches_from_def BATCH_SIZE_def)

lemma batches_of_12:
  assumes "length stocks = 12"
  shows "map length (batches_from stocks 0) = [5, 5, 2]"
proof -
  have "[0..<(length stocks + 4) div 5] = [0, 1, 2]"
    using assms by (simp add: upt_rec)
  then show ?thesis using assms by (simp add: batches_from_0)
qed

text \<open>
  Claim C8, as the code has it. The batches are the consecutive slices of 5 instruments in
  input order (the last one possibly shorter, none empty), \<open>sleep(1500)\<close> is called
  between every two consecutive batches and not after the last, and \<open>updateProgress\<close> is
  called \<open>N + 2\<close> times: at 0 before the first batch, once per settled instrument with
  the counts 1 to \<open>N\<close>, and once more at \<open>N\<close> after the loop. For 12 instruments there
  are 3 batches of 5, 5 and 2, 2 pauses and 14 calls.
\<close>

theorem fetchAllPrices_batches_and_progress:
  "launches (trace (fetchAllPrices resolve sched stocks))
     = map (\<lambda>k. take 5 (drop (5 * k) stocks)) [0..<(length stocks + 4) div 5]
   \<and> concat (launches (trace (fetchAllPrices resolve sched stocks))) = stocks
   \<and> (\<forall>b\<in>set (launches (trace (fetchAllPrices resolve sched stocks))). 1 \<le> length b \<and> length b \<le> 5)
   \<and> (\<forall>b\<in>set (butlast (launches (trace (fetchAllPrices resolve sched stocks)))). length b = 5)
   \<and> pacing (trace (fetchAllPrices resolve sched stocks))
       = intersperse (Sleep 1500) (map Launch (launches (trace (fetchAllPrices resolve sched stocks))))
   \<and> length (filter (\<lambda>e. e = Sleep 1500) (trace (fetchAllPrices resolve sched stocks)))
       = length (launches (trace (fetchAllPrices resolve sched stocks))) - 1
   \<and> progress_calls (trace (fetchAllPrices resolve sched stocks))
       = Progress 0 (length stocks)
         # map (\<lambda>k. Progress k (length stocks)) [1..<length stocks + 1]
         @ [Progress (length stocks) (length stocks)]
   \<and> length (progress_calls (trace (fetchAllPrices resolve sched stocks))) = length stocks + 2
   \<and> (length stocks = 12 \<longrightarrow>
         map length (launches (trace (fetchAllPrices resolve sched stocks))) = [5, 5, 2]
         \<and> length (filter (\<lambda>e. e = Sleep 1500) (trace (fetchAllPrices resolve sched stocks))) = 2
         \<and> length (progress_calls (trace (fetchAllPrices resolve sched stocks))) = 14)"
proof -
  define R where "R = fetchAllPrices resolve sched stocks"
  have l: "launches (trace R) = batches_from stocks 0"
    unfolding R_def by (rule fetchAllPrices_launches)
  have a: "launches (trace R)
     = map (\<lambda>k. take 5 (drop (5 * k) stocks)) [0..<(length stocks + 4) div 5]"
    by (simp only: l batches_from_0)
  have b: "concat (launches (trace R)) = stocks"
    by (simp add: l concat_batches_from)
  have c: "\<forall>b\<in>set (launches (trace R)). 1 \<le> length b \<and> length b \<le> 5"
    using length_batches_from [of _ stocks 0] by (simp add: l BATCH_SIZE_def)
  have d: "\<forall>b\<in>set (butlast (launches (trace R))). length b = 5"
    using butlast_batches_from [of _ stocks 0] by (simp add: l BATCH_SIZE_def)
  have e: "pacing (trace R) = intersperse (Sleep 1500) (map Launch (launches (trace R)))"
    unfolding R_def l [unfolded R_def] fetchAllPrices_pacing by (simp add: BATCH_DELAY_MS_def)
  have f: "length (filter (\<lambda>e. e = Sleep 1500) (trace R)) = length (launches (trace R)) - 1"
    using fetchAllPrices_sleeps [of resolve sched stocks]
    by (simp add: l [unfolded R_def] R_def BATCH_DELAY_MS_def)
  have g: "progress_calls (trace R)
       = Progress 0 (length stocks)
         # map (\<lambda>k. Progress k (length stocks)) [1..<length stocks + 1]
         @ [Progress (length stocks) (length stocks)]"
    unfolding R_def by (rule fetchAllPrices_progress)
  have h: "length (progress_calls (trace R)) = length stocks + 2"
    by (simp add: g del: upt_Suc)
  have i: "length stocks = 12 \<longrightarrow>
         map length (launches (trace R)) = [5, 5, 2]
         \<and> length (filter (\<lambda>e. e = Sleep 1500) (trace R)) = 2
         \<and> length (progress_calls (trace R)) = 14"
  proof
    assume n: "length stocks = 12"
    then have m: "map length (launches (trace R)) = [5, 5, 2]"
      unfolding l by (rule batches_of_12)
    then have "length (map length (launches (trace R))) = 3" by simp
    then have "length (launches (trace R)) = 3" by simp
    with f h n m show "map length (launches (trace R)) = [5, 5, 2]
         \<and> length (filter (\<lambda>e. e = Sleep 1500) (trace R)) = 2
         \<and> length (progress_calls (trace R)) = 14"
      by simp
  qed
  from a b c d e f g h i show ?thesis unfolding R_def by blast
qed

text \<open>
  The theorem on a list of 12 instruments, every request answered with status 500.
\<close>

theorem fetchAllPrices_batches_and_progress_witness:
  "length twelve_stocks = 12
   \<and> map length (launches (trace (fetchAllPrices all_status_500 in_order twelve_stocks))) = [5, 5, 2]
   \<and> length (filter (\<lambda>e. e = Sleep 1500) (trace (fetchAllPrices all_status_500 in_order twelve_stocks))) = 2
   \<and> length (progress_calls (trace (fetchAllPrices all_status_500 in_order twelve_stocks))) = 14"
proof -
  note n = length_twelve_stocks
  note inst = fetchAllPrices_batches_and_progress [of all_status_500 in_order twelve_stocks]
  note last = inst [THEN conjunct2, THEN conjunct2, THEN conjunct2, THEN conjunct2, THEN conjunct2,
      THEN conjunct2, THEN conjunct2, THEN conjunct2, THEN mp, OF n]
  from n last show ?thesis by (rule conjI)
qed

text \<open>
  Claim C8 as stated fails on the number of progress calls: with 12 instruments (here
  every request is answered with status 500) there are 14 calls, not 13, because of the
  call after the loop.
\<close>

theorem fetchAllPrices_progress_counterexample:
  "length (progress_calls (trace (fetchAllPrices all_status_500 in_order twelve_stocks))) = 14
   \<and> length (progress_calls (trace (fetchAllPrices all_status_500 in_order twelve_stocks)))
       \<noteq> length twelve_stocks + 1"
  by (simp add: fetchAllPrices_progress length_twelve_stocks del: upt_Suc)

text \<open>
  The messages of \<open>fetchClosingPrice\<close> are not empty, so the error of a result is the
  empty string only when an exception with an empty message was raised.
\<close>

lemma fetchClosingPrice_error_not_empty:
  assumes "resp \<noteq> Throws []"
  shows "error (fetchClosingPrice off tk target resp) \<noteq> Some []"
proof (cases "truthy tk")
  case False
  then show ?thesis by (simp add: fetchClosingPrice_def nullResult_def msg_invalid_ticker_def)
next
  case True
  show ?thesis
  proof (cases resp)
    case (Throws m)
    with assms True show ?thesis by (simp add: fetchClosingPrice_def nullResult_def)
  next
    case (NotOk status)
    with True show ?thesis by (simp add: fetchClosingPrice_def nullResult_def ascii_def)
  next
    case (Ok data)
    with True show ?thesis
      by (auto simp: fetchClosingPrice_def nullResult_def msg_no_data_def msg_no_chart_data_def
            msg_no_valid_close_def resolve_series_def Let_def
          split: chart_data.splits list.splits)
  qed
qed

lemma resolver_truthy_error:
  assumes "net s \<noteq> Throws []"
  shows "truthy (error (resolver off target net s)) \<longleftrightarrow> error (resolver off target net s) \<noteq> None"
  using fetchClosingPrice_error_not_empty [OF assms, of off "ticker s" target]
  by (cases "error (resolver off target net s)") (simp_all add: truthy_def resolver_def)

lemma resolver_failing:
  assumes "\<forall>s\<in>set stocks. net s \<noteq> Throws []"
  shows "filter (\<lambda>s. truthy (error (resolver off target net s))) stocks
           = filter (\<lambda>s. error (resolver off target net s) \<noteq> None) stocks"
  using assms by (intro filter_cong refl resolver_truthy_error) simp

text \<open>
  Claim C9. Exceptions carry a message that is not empty, as those of \<open>fetch\<close>, of
  \<open>response.json()\<close> and of the engine do. Then, for every list of instruments, every
  schedule and whatever the requests bring back, the run ends with all instruments
  completed; the results are keyed by exactly the raw codes of the list and every stored
  result is the result of an instrument with that code (its own when the codes are
  distinct), whether or not other instruments failed. The error list holds, in some
  order, exactly one entry \<open>{code, name, ticker, error}\<close> for each instrument whose result
  has an error; with distinct codes the number of entries for an instrument is 1 when its
  result has an error and 0 when it has none.
\<close>

theorem fetchAllPrices_results_and_errors:
  assumes "\<forall>s\<in>set stocks. net s \<noteq> Throws []"
  shows "completed (fetchAllPrices (resolver off target net) sched stocks) = length stocks
   \<and> \<not> isFetching (fetchAllPrices (resolver off target net) sched stocks)
   \<and> dom (closingPrices (fetchAllPrices (resolver off target net) sched stocks)) = rawCode ` set stocks
   \<and> (\<forall>k r. closingPrices (fetchAllPrices (resolver off target net) sched stocks) k = Some r \<longrightarrow>
          (\<exists>s\<in>set stocks. rawCode s = k \<and> r = resolver off target net s))
   \<and> (distinct (map rawCode stocks) \<longrightarrow>
        (\<forall>s\<in>set stocks. closingPrices (fetchAllPrices (resolver off target net) sched stocks) (rawCode s)
             = Some (resolver off target net s)))
   \<and> mset (errorMessages (fetchAllPrices (resolver off target net) sched stocks))
       = mset (map (\<lambda>s. \<lparr>err_code = rawCode s, err_name = name s,
                          err_ticker = (if truthy (ticker s) then the (ticker s) else ascii ''N/A''),
                          err_error = the (error (resolver off target net s))\<rparr>)
                 (filter (\<lambda>s. error (resolver off target net s) \<noteq> None) stocks))
   \<and> (distinct (map rawCode stocks) \<longrightarrow>
        (\<forall>s\<in>set stocks.
           length (filter (\<lambda>e. err_code e = rawCode s)
                     (errorMessages (fetchAllPrices (resolver off target net) sched stocks)))
             = (if error (resolver off target net s) \<noteq> None then 1 else 0)))"
proof -
  define resolve where "resolve = resolver off target net"
  define R where "R = fetchAllPrices resolve sched stocks"
  have t: "truthy (error (resolve s)) \<longleftrightarrow> error (resolve s) \<noteq> None" if "s \<in> set stocks" for s
    unfolding resolve_def using assms that by (intro resolver_truthy_error) simp
  have a: "completed R = length stocks"
    by (simp add: R_def fetchAllPrices_fields batch_loop_completed)
  have b: "\<not> isFetching R"
    by (simp add: R_def fetchAllPrices_fields)
  have c: "dom (closingPrices R) = rawCode ` set stocks"
    unfolding R_def by (rule fetchAllPrices_results_dom)
  have d: "\<forall>k r. closingPrices R k = Some r \<longrightarrow> (\<exists>s\<in>set stocks. rawCode s = k \<and> r = resolve s)"
    unfolding R_def using fetchAllPrices_results_lookup by blast
  have e: "distinct (map rawCode stocks) \<longrightarrow>
        (\<forall>s\<in>set stocks. closingPrices R (rawCode s) = Some (resolve s))"
    unfolding R_def using fetchAllPrices_results_own by blast
  have "mset (errorMessages R)
       = mset (map (error_entry_of resolve) (filter (\<lambda>s. truthy (error (resolve s))) stocks))"
    unfolding R_def by (rule fetchAllPrices_errors)
  also have "filter (\<lambda>s. truthy (error (resolve s))) stocks
       = filter (\<lambda>s. error (resolve s) \<noteq> None) stocks"
    unfolding resolve_def using assms by (rule resolver_failing)
  finally have f: "mset (errorMessages R)
       = mset (map (\<lambda>s. \<lparr>err_code = rawCode s, err_name = name s,
                          err_ticker = (if truthy (ticker s) then the (ticker s) else ascii ''N/A''),
                          err_error = the (error (resolve s))\<rparr>)
                 (filter (\<lambda>s. error (resolve s) \<noteq> None) stocks))"
    unfolding error_entry_of_def .
  have g: "distinct (map rawCode stocks) \<longrightarrow>
        (\<forall>s\<in>set stocks.
           length (filter (\<lambda>e. err_code e = rawCode s) (errorMessages R))
             = (if error (resolve s) \<noteq> None then 1 else 0))"
  proof (intro impI ballI)
    fix s assume "distinct (map rawCode stocks)" and s: "s \<in> set stocks"
    then have "length (filter (\<lambda>e. err_code e = rawCode s) (errorMessages R))
             = (if truthy (error (resolve s)) then 1 else 0)"
      unfolding R_def by (rule fetchAllPrices_errors_once)
    with t [OF s] show "length (filter (\<lambda>e. err_code e = rawCode s) (errorMessages R))
             = (if error (resolve s) \<noteq> None then 1 else 0)"
      by simp
  qed
  from a b c d e f g show ?thesis unfolding R_def resolve_def by (intro conjI)
qed

text \<open>
  The theorem on two instruments: the request of the first is answered with status 500,
  that of the second with the example series. The error list is the one entry of the
  first, and the second has its own result stored, without an error.
\<close>

theorem fetchAllPrices_results_and_errors_witness:
  "first_fails stock_1301 \<noteq> Throws []
   \<and> first_fails stock_1332 \<noteq> Throws []
   \<and> distinct (map rawCode [stock_1301, stock_1332])
   \<and> error (resolver tokyo 250 first_fails stock_1301) = Some (ascii ''HTTP 500'')
   \<and> error (resolver tokyo 250 first_fails stock_1332) = None
   \<and> errorMessages (fetchAllPrices (resolver tokyo 250 first_fails) (\<lambda>i. [1]) [stock_1301, stock_1332])
       = [\<lparr>err_code = ascii ''1301'', err_name = ascii ''A'', err_ticker = ascii ''1301.T'',
           err_error = ascii ''HTTP 500''\<rparr>]
   \<and> length (filter (\<lambda>e. err_code e = rawCode stock_1332)
        (errorMessages (fetchAllPrices (resolver tokyo 250 first_fails) (\<lambda>i. [1]) [stock_1301, stock_1332])))
       = 0
   \<and> closingPrices (fetchAllPrices (resolver tokyo 250 first_fails) (\<lambda>i. [1]) [stock_1301, stock_1332])
        (rawCode stock_1332)
       = Some (resolver tokyo 250 first_fails stock_1332)
   \<and> completed (fetchAllPrices (resolver tokyo 250 first_fails) (\<lambda>i. [1]) [stock_1301, stock_1332]) = 2"
proof -
  have n1: "first_fails stock_1301 \<noteq> Throws []"
    by (simp add: first_fails_def series_response_def)
  have n2: "first_fails stock_1332 \<noteq> Throws []" by (simp add: first_fails_def series_response_def)
  from n1 n2 have n: "\<forall>s\<in>set [stock_1301, stock_1332]. first_fails s \<noteq> Throws []" by simp
  have d: "distinct (map rawCode [stock_1301, stock_1332])"
    by (simp add: stock_1301_def stock_1332_def ascii_def)
  have m2: "stock_1332 \<in> set [stock_1301, stock_1332]" by simp
  have e1: "error (resolver tokyo 250 first_fails stock_1301) = Some (ascii ''HTTP 500'')"
    by (simp add: resolver_def first_fails_def stock_1301_def fetchClosingPrice_def truthy_def
        nullResult_def ascii_def String_int_def digits.simps)
  have "resolver tokyo 250 first_fails stock_1332
      = resolve_series tokyo series_ts series_closes (tradingDays_of series_ts series_closes) 250"
    unfolding resolver_def first_fails_def series_response_def
    by (simp add: stock_1332_def ascii_def)
       (rule fetchClosingPrice_success, simp add: truthy_def, simp add: series_tradingDays)
  then have e2: "error (resolver tokyo 250 first_fails stock_1332) = None"
    by (simp add: resolve_series_def Let_def)
  note inst = fetchAllPrices_results_and_errors [OF n, of tokyo 250 "\<lambda>i. [1]"]
  note compl = inst [THEN conjunct1]
  note own = inst [THEN conjunct2, THEN conjunct2, THEN conjunct2, THEN conjunct2, THEN conjunct1,
      THEN mp, OF d]
  note errs = inst [THEN conjunct2, THEN conjunct2, THEN conjunct2, THEN conjunct2, THEN conjunct2,
      THEN conjunct1]
  note once = inst [THEN conjunct2, THEN conjunct2, THEN conjunct2, THEN conjunct2, THEN conjunct2,
      THEN conjunct2, THEN mp, OF d]
  from errs have "mset (errorMessages
        (fetchAllPrices (resolver tokyo 250 first_fails) (\<lambda>i. [1]) [stock_1301, stock_1332]))
       = {#\<lparr>err_code = ascii ''1301'', err_name = ascii ''A'', err_ticker = ascii ''1301.T'',
            err_error = ascii ''HTTP 500''\<rparr>#}"
    by (simp add: e1 e2) (simp add: stock_1301_def truthy_def ascii_def)
  then have a: "errorMessages
        (fetchAllPrices (resolver tokyo 250 first_fails) (\<lambda>i. [1]) [stock_1301, stock_1332])
       = [\<lparr>err_code = ascii ''1301'', err_name = ascii ''A'', err_ticker = ascii ''1301.T'',
           err_error = ascii ''HTTP 500''\<rparr>]"
    by (simp only: mset_single_iff)
  from once [THEN bspec, OF m2] e2
  have b: "length (filter (\<lambda>e. err_code e = rawCode stock_1332)
        (errorMessages (fetchAllPrices (resolver tokyo 250 first_fails) (\<lambda>i. [1]) [stock_1301, stock_1332])))
       = 0"
    by simp
  note c = own [THEN bspec, OF m2]
  from compl have f: "completed
        (fetchAllPrices (resolver tokyo 250 first_fails) (\<lambda>i. [1]) [stock_1301, stock_1332]) = 2"
    by simp
  from n1 n2 d e1 e2 a b c f show ?thesis by (intro conjI)
qed

text \<open>
  Without the condition on the messages: were an exception with an empty message raised,
  the result would have \<open>price\<close> \<open>null\<close> and the empty string as \<open>error\<close>, and the test
  \<open>if (result.error)\<close> would leave the instrument out of the error list.
\<close>

lemma fetchAllPrices_empty_message:
  "error (resolver tokyo 0 empty_message stock_1301) = Some []
   \<and> price (resolver tokyo 0 empty_message stock_1301) = None
   \<and> errorMessages (fetchAllPrices (resolver tokyo 0 empty_message) in_order [stock_1301]) = []"
proof -
  have r: "resolver tokyo 0 empty_message stock_1301 = nullResult\<lparr>error := Some []\<rparr>"
    by (simp add: resolver_def empty_message_def stock_1301_def fetchClosingPrice_def truthy_def
        ascii_def)
  have "mset (errorMessages (fetchAllPrices (resolver tokyo 0 empty_message) in_order [stock_1301]))
      = {#}"
    unfolding fetchAllPrices_errors by (simp add: r truthy_def)
  then have "errorMessages (fetchAllPrices (resolver tokyo 0 empty_message) in_order [stock_1301]) = []"
    by simp
  then show ?thesis by (simp add: r nullResult_def)
qed

end
